theory Spec2Isabelle
  imports Complex_Main "HOL-Library.Word" "HOL-Library.Log_Nat" "HOL-Library.Sublist"
begin

unbundle bit_operations_syntax

section \<open>compactmapper: grouping keys, colours and the LAS point codec\<close>

text \<open>
  Go strings are byte sequences; they are modelled as \<open>string\<close> (a list of 8-bit
  characters), so \<open>length\<close> is Go's \<open>len\<close> and \<open>take n\<close> is the slice \<open>s[:n]\<close>.
  Go's \<open>int\<close> is modelled as \<open>int\<close> where only comparisons are made on it;
  \<open>uint8\<close>, \<open>uint16\<close>, \<open>uint32\<close> and \<open>int32\<close> are words of that width.
\<close>

type_synonym byte = "8 word"
type_synonym uint16 = "16 word"
type_synonym uint32 = "32 word"
type_synonym uint64 = "64 word"

subsection \<open>converter: determineColor\<close>

definition determineColor :: "int \<Rightarrow> int \<Rightarrow> uint16 \<times> uint16 \<times> uint16" where
  "determineColor passCount targPass =
     (if passCount < targPass then (65535, 0, 0)
      else if passCount = targPass then (0, 65535, 0)
      else (0, 0, 65535))"

subsection \<open>sorter: normalizeAmp\<close>

text \<open>
  \<open>strings.ReplaceAll s old new\<close> for a non-empty \<open>old\<close>: the non-overlapping
  occurrences of \<open>old\<close> are replaced from left to right. (With an empty \<open>old\<close> Go
  inserts \<open>new\<close> at every code point boundary; the program never calls it so, and
  the model returns \<open>s\<close> there.)
\<close>

function ReplaceAll :: "string \<Rightarrow> string \<Rightarrow> string \<Rightarrow> string" where
  "ReplaceAll s old new =
     (if old = [] \<or> s = [] then s
      else if prefix old s then new @ ReplaceAll (drop (length old) s) old new
      else hd s # ReplaceAll (tl s) old new)"
  by pat_completeness auto
termination
  by (relation "measure (\<lambda>(s, old, new). length s)") (auto simp: neq_Nil_conv)

declare ReplaceAll.simps [simp del]

definition normalizeAmp :: "string \<Rightarrow> string" where
  "normalizeAmp amp =
     (if amp = [] \<or> amp = ''?'' then ''no_amp''
      else let normalized = ReplaceAll amp ''.'' []
           in if length normalized > 3 then take 3 normalized else normalized)"

subsection \<open>sorter: parseDate\<close>

text \<open>
  \<open>parseDate\<close> calls \<open>time.Parse\<close> with the layout \<open>2006/Jan/02 15:04:05.999\<close> and
  formats the result with \<open>2006-01-02\<close>. The model below is the parser of Go's
  package \<open>time\<close> (format.go) for this layout: \<open>nextStdChunk\<close> splits the layout
  into the chunks of \<open>layout_chunks\<close> (a literal prefix and the element after it),
  and \<open>Parse\<close> consumes the value chunk by chunk with the helpers \<open>skip\<close>,
  \<open>getnum\<close>, \<open>atoi\<close>, \<open>lookup\<close> and \<open>parseNanoseconds\<close>, then validates the day of
  the month. Bytes are compared by their codes.
\<close>

datatype time_error = errBad | errRange string | errExtraText | errDayOutOfRange

definition code :: "char \<Rightarrow> nat" where
  "code c = of_char c"

definition isDigit :: "string \<Rightarrow> nat \<Rightarrow> bool" where
  "isDigit s i = (i < length s \<and> 48 \<le> code (s ! i) \<and> code (s ! i) \<le> 57)"

definition commaOrPeriod :: "char \<Rightarrow> bool" where
  "commaOrPeriod c = (c = CHR ''.'' \<or> c = CHR '','')"

definition cutspace :: "string \<Rightarrow> string" where
  "cutspace s = dropWhile (\<lambda>c. c = CHR '' '') s"

function skip :: "string \<Rightarrow> string \<Rightarrow> string option" where
  "skip v [] = Some v"
| "skip v (p # pfx) =
     (if p = CHR '' '' then
        (if v \<noteq> [] \<and> hd v \<noteq> CHR '' '' then None
         else skip (cutspace v) (cutspace pfx))
      else if v = [] \<or> hd v \<noteq> p then None
      else skip (tl v) pfx)"
  by pat_completeness auto
termination
  by (relation "measure (\<lambda>(v, pfx). length pfx)")
     (auto simp: cutspace_def length_dropWhile_le le_imp_less_Suc)

definition getnum :: "string \<Rightarrow> bool \<Rightarrow> (int \<times> string) option" where
  "getnum s fixed =
     (if \<not> isDigit s 0 then None
      else if \<not> isDigit s 1 then
        (if fixed then None else Some (int (code (s ! 0)) - 48, drop 1 s))
      else Some ((int (code (s ! 0)) - 48) * 10 + (int (code (s ! 1)) - 48), drop 2 s))"

text \<open>
  \<open>leadingInt\<close>: the leading digits as a number and the rest, or an error beyond
  \<open>2 ^ 63\<close>.
\<close>

fun leadingInt :: "nat \<Rightarrow> string \<Rightarrow> (nat \<times> string) option" where
  "leadingInt x [] = Some (x, [])"
| "leadingInt x (c # s) =
     (if code c < 48 \<or> code c > 57 then Some (x, c # s)
      else if x > 2 ^ 63 div 10 then None
      else if x * 10 + (code c - 48) > 2 ^ 63 then None
      else leadingInt (x * 10 + (code c - 48)) s)"

definition atoi :: "string \<Rightarrow> int option" where
  "atoi s0 =
     (let neg = (s0 \<noteq> [] \<and> hd s0 = CHR ''-'');
          s = (if s0 \<noteq> [] \<and> (hd s0 = CHR ''-'' \<or> hd s0 = CHR ''+'') then tl s0 else s0)
      in case leadingInt 0 s of
           None \<Rightarrow> None
         | Some (q, rem) \<Rightarrow>
             if rem \<noteq> [] then None else Some (if neg then - int q else int q))"

definition shortMonthNames :: "string list" where
  "shortMonthNames =
     [''Jan'', ''Feb'', ''Mar'', ''Apr'', ''May'', ''Jun'',
      ''Jul'', ''Aug'', ''Sep'', ''Oct'', ''Nov'', ''Dec'']"

text \<open>\<open>match\<close>: equal ignoring the case of letters (the two have the same length).\<close>

definition match_byte :: "char \<Rightarrow> char \<Rightarrow> bool" where
  "match_byte c1 c2 =
     (c1 = c2 \<or>
      (code c1 OR 32 = code c2 OR 32 \<and> 97 \<le> (code c1 OR 32) \<and> (code c1 OR 32) \<le> 122))"

definition match :: "string \<Rightarrow> string \<Rightarrow> bool" where
  "match s1 s2 = list_all2 match_byte s1 s2"

fun lookup :: "string list \<Rightarrow> nat \<Rightarrow> string \<Rightarrow> (int \<times> string) option" where
  "lookup [] i val = None"
| "lookup (v # tab) i val =
     (if length val \<ge> length v \<and> match (take (length v) val) v
      then Some (int i, drop (length v) val)
      else lookup tab (i + 1) val)"

definition parseNanoseconds :: "string \<Rightarrow> nat \<Rightarrow> time_error + int" where
  "parseNanoseconds value0 nbytes0 =
     (if \<not> commaOrPeriod (value0 ! 0) then Inl errBad
      else let value = (if nbytes0 > 10 then take 10 value0 else value0);
               nbytes = (if nbytes0 > 10 then 10 else nbytes0)
           in case atoi (take (nbytes - 1) (drop 1 value)) of
                None \<Rightarrow> Inl errBad
              | Some ns \<Rightarrow>
                  if ns < 0 then Inl (errRange ''fractional second'')
                  else Inr (ns * 10 ^ (10 - nbytes)))"

record Time =
  year :: int
  month :: int
  day :: int
  hour :: int
  minute :: int
  sec :: int
  nsec :: int

datatype std = stdLongYear | stdMonth | stdZeroDay | stdHour | stdZeroMinute | stdZeroSecond
  | stdFracSecond9

definition layout_chunks :: "(string \<times> std) list" where
  "layout_chunks =
     [([], stdLongYear), (''/'', stdMonth), (''/'', stdZeroDay), ('' '', stdHour),
      ('':'', stdZeroMinute), ('':'', stdZeroSecond), ([], stdFracSecond9)]"

text \<open>One case of the \<open>switch\<close> on the layout element: the fields and the rest of the value.\<close>

fun parse_std :: "std \<Rightarrow> Time \<Rightarrow> string \<Rightarrow> time_error + Time \<times> string" where
  "parse_std stdLongYear t v =
     (if length v < 4 \<or> \<not> isDigit v 0 then Inl errBad
      else case atoi (take 4 v) of
             None \<Rightarrow> Inl errBad
           | Some y \<Rightarrow> Inr (t\<lparr>year := y\<rparr>, drop 4 v))"
| "parse_std stdMonth t v =
     (case lookup shortMonthNames 0 v of
        None \<Rightarrow> Inl errBad
      | Some (m, v') \<Rightarrow> Inr (t\<lparr>month := m + 1\<rparr>, v'))"
| "parse_std stdZeroDay t v =
     (case getnum v True of
        None \<Rightarrow> Inl errBad
      | Some (d, v') \<Rightarrow> Inr (t\<lparr>day := d\<rparr>, v'))"
| "parse_std stdHour t v =
     (case getnum v False of
        None \<Rightarrow> Inl errBad
      | Some (h, v') \<Rightarrow>
          if h < 0 \<or> 24 \<le> h then Inl (errRange ''hour'') else Inr (t\<lparr>hour := h\<rparr>, v'))"
| "parse_std stdZeroMinute t v =
     (case getnum v True of
        None \<Rightarrow> Inl errBad
      | Some (m, v') \<Rightarrow>
          if m < 0 \<or> 60 \<le> m then Inl (errRange ''minute'') else Inr (t\<lparr>minute := m\<rparr>, v'))"
| "parse_std stdZeroSecond t v =
     (case getnum v True of
        None \<Rightarrow> Inl errBad
      | Some (s, v') \<Rightarrow>
          if s < 0 \<or> 60 \<le> s then Inl (errRange ''second'') else Inr (t\<lparr>sec := s\<rparr>, v'))"
| "parse_std stdFracSecond9 t v =
     (if length v < 2 \<or> \<not> commaOrPeriod (v ! 0) \<or> \<not> isDigit v 1 then Inr (t, v)
      else let i = length (takeWhile (\<lambda>c. 48 \<le> code c \<and> code c \<le> 57) (drop 1 v))
           in case parseNanoseconds v (1 + i) of
                Inl err \<Rightarrow> Inl err
              | Inr ns \<Rightarrow> Inr (t\<lparr>nsec := ns\<rparr>, drop (1 + i) v))"

fun parse_chunks :: "(string \<times> std) list \<Rightarrow> Time \<Rightarrow> string \<Rightarrow> time_error + Time" where
  "parse_chunks [] t v = (if v \<noteq> [] then Inl errExtraText else Inr t)"
| "parse_chunks ((pfx, s) # chunks) t v =
     (case skip v pfx of
        None \<Rightarrow> Inl errBad
      | Some v1 \<Rightarrow>
          (case parse_std s t v1 of
             Inl err \<Rightarrow> Inl err
           | Inr (t', v2) \<Rightarrow> parse_chunks chunks t' v2))"

definition isLeap :: "int \<Rightarrow> bool" where
  "isLeap y = (y mod 4 = 0 \<and> (y mod 100 \<noteq> 0 \<or> y mod 400 = 0))"

definition daysIn :: "int \<Rightarrow> int \<Rightarrow> int" where
  "daysIn m y =
     (if m = 2 then (if isLeap y then 29 else 28)
      else if m = 4 \<or> m = 6 \<or> m = 9 \<or> m = 11 then 30 else 31)"

definition Parse :: "string \<Rightarrow> time_error + Time" where
  "Parse v =
     (case parse_chunks layout_chunks
             \<lparr>year = 0, month = - 1, day = - 1, hour = 0, minute = 0, sec = 0, nsec = 0\<rparr> v of
        Inl err \<Rightarrow> Inl err
      | Inr t \<Rightarrow>
          if day t < 1 \<or> day t > daysIn (month t) (year t) then Inl errDayOutOfRange
          else Inr t)"

text \<open>
  \<open>appendInt x width\<close>: the decimal digits of a non-negative \<open>x\<close>, padded with zeros
  to \<open>width\<close>; \<open>Format\<close> is \<open>t.Format("2006-01-02")\<close>.
\<close>

definition digit_char :: "nat \<Rightarrow> char" where
  "digit_char d = ''0123456789'' ! d"

function decimal :: "nat \<Rightarrow> string" where
  "decimal n = (if n < 10 then [digit_char n] else decimal (n div 10) @ [digit_char (n mod 10)])"
  by pat_completeness auto
termination
  by (relation "measure id") auto

declare decimal.simps [simp del]

definition appendInt :: "int \<Rightarrow> nat \<Rightarrow> string" where
  "appendInt x width =
     replicate (width - length (decimal (nat x))) (CHR ''0'') @ decimal (nat x)"

definition Format :: "Time \<Rightarrow> string" where
  "Format t = appendInt (year t) 4 @ ''-'' @ appendInt (month t) 2 @ ''-'' @ appendInt (day t) 2"

definition parseDate :: "string \<Rightarrow> time_error + string" where
  "parseDate timeStr =
     (case Parse timeStr of
        Inl err \<Rightarrow> Inl err
      | Inr t \<Rightarrow> Inr (Format t))"

text \<open>
  The two formats \<open>parseDate\<close> is compared with. \<open>digits w n\<close> are the last \<open>w\<close>
  decimal digits of \<open>n\<close>. \<open>fixed_format\<close> is the format of the specification,
  \<open>YYYY/Mon/DD HH:MM:SS.fff\<close>; \<open>lenient_format s y m d\<close> says that \<open>s\<close> is a date
  \<open>y\<close>, \<open>m\<close>, \<open>d\<close> in the wider format the parser accepts: any capitalisation of the
  month, one or more spaces before the time, an hour of one or two digits, and
  after the seconds either nothing or a period or comma with one or more digits.
\<close>

fun digits :: "nat \<Rightarrow> nat \<Rightarrow> string" where
  "digits 0 n = []"
| "digits (Suc w) n = digits w (n div 10) @ [digit_char (n mod 10)]"

definition is_digit :: "char \<Rightarrow> bool" where
  "is_digit c = (48 \<le> code c \<and> code c \<le> 57)"

definition date_string :: "nat \<Rightarrow> nat \<Rightarrow> nat \<Rightarrow> string" where
  "date_string y m d = digits 4 y @ ''-'' @ digits 2 m @ ''-'' @ digits 2 d"

definition valid_fields :: "nat \<Rightarrow> nat \<Rightarrow> nat \<Rightarrow> nat \<Rightarrow> nat \<Rightarrow> nat \<Rightarrow> nat \<Rightarrow> bool" where
  "valid_fields y m d H M S f =
     (y < 10000 \<and> 1 \<le> m \<and> m \<le> 12 \<and> 1 \<le> d \<and> int d \<le> daysIn (int m) (int y) \<and>
      H < 24 \<and> M < 60 \<and> S < 60 \<and> f < 1000)"

definition fixed_format :: "nat \<Rightarrow> nat \<Rightarrow> nat \<Rightarrow> nat \<Rightarrow> nat \<Rightarrow> nat \<Rightarrow> nat \<Rightarrow> string" where
  "fixed_format y m d H M S f =
     digits 4 y @ ''/'' @ shortMonthNames ! (m - 1) @ ''/'' @ digits 2 d @ '' '' @
     digits 2 H @ '':'' @ digits 2 M @ '':'' @ digits 2 S @ ''.'' @ digits 3 f"

definition frac_ok :: "string \<Rightarrow> bool" where
  "frac_ok fr =
     (fr = [] \<or> (\<exists>c ds. fr = c # ds \<and> commaOrPeriod c \<and> ds \<noteq> [] \<and> list_all is_digit ds))"

definition lenient_format :: "string \<Rightarrow> nat \<Rightarrow> nat \<Rightarrow> nat \<Rightarrow> bool" where
  "lenient_format s y m d =
     (\<exists>mon sp hh H M S fr.
        s = digits 4 y @ ''/'' @ mon @ ''/'' @ digits 2 d @ sp @ hh @ '':'' @
            digits 2 M @ '':'' @ digits 2 S @ fr \<and>
        y < 10000 \<and> 1 \<le> m \<and> m \<le> 12 \<and> match mon (shortMonthNames ! (m - 1)) \<and>
        1 \<le> d \<and> int d \<le> daysIn (int m) (int y) \<and>
        sp \<noteq> [] \<and> list_all (\<lambda>c. c = CHR '' '') sp \<and>
        (hh = digits 2 H \<or> (hh = digits 1 H \<and> H < 10)) \<and> H < 24 \<and> M < 60 \<and> S < 60 \<and>
        frac_ok fr)"

text \<open>Helpers for the comparison of month names: the code of a byte with bit 5 set.\<close>

definition lc :: "char \<Rightarrow> nat" where
  "lc c = code c OR 32"

definition letter :: "char \<Rightarrow> bool" where
  "letter c = (97 \<le> lc c \<and> lc c \<le> 122)"

subsection \<open>sorter: SortCSV\<close>

text \<open>
  The input of \<open>SortCSV\<close> is what \<open>csv.Reader.Read\<close> returns call by call until the
  end of the file, the header line first: the fields of a record, or an error for
  a line that cannot be read. A record whose number of fields differs from the
  header's is an error too (\<open>FieldsPerRecord\<close> is 0, so the reader takes the count
  from the first record and returns \<open>ErrFieldCount\<close> with every record of another
  length). The input file is taken to open and the output directory to exist.

  An output file is the list of the records written to it, \<open>dir\<close> maps the names
  in the output directory to the files, and \<open>refused\<close> are the names that
  \<open>os.OpenFile\<close> does not open; \<open>csv.Writer\<close> and the error log are not modelled, and
  writing to an open file is taken to succeed. Go does not fix the order in which
  \<open>range\<close> visits the keys of a map: \<open>visit groups\<close> is that order.
\<close>

type_synonym row = "string list"

datatype read_result = ReadError | Fields row

datatype sort_error =
  errReadingHeader
  | errMissingColumn string
  | errReadingRow nat
  | errParsingDate string time_error
  | errCreatingOutput string

record GroupKey =
  Date :: string
  DesignName :: string
  Amp :: string

definition ChunkSize :: nat where
  "ChunkSize = 10000"

text \<open>
  The regular expression of \<open>sanitizeFilename\<close> is a class of nine characters, and
  replacing every match by the empty string removes them.
\<close>

definition sanitizeFilename :: "string \<Rightarrow> string" where
  "sanitizeFilename filename =
     filter (\<lambda>c. c \<notin> set [CHR ''<'', CHR ''>'', CHR '':'', CHR 0x22, CHR ''/'', CHR 0x5C,
                              CHR ''|'', CHR ''?'', CHR ''*'']) filename"

definition generateFilename :: "string \<Rightarrow> string \<Rightarrow> string \<Rightarrow> string" where
  "generateFilename date design amp =
     (if amp = ''no_amp'' then date @ ''design'' @ design @ ''amp.csv''
      else date @ ''design'' @ design @ ''amp'' @ amp @ ''.csv'')"

text \<open>The column indices: a later column of the same name replaces an earlier one.\<close>

definition colMap :: "row \<Rightarrow> string \<Rightarrow> nat option" where
  "colMap hdr = fold (\<lambda>(i, col) m. m(col \<mapsto> i)) (zip [0..<length hdr] hdr) Map.empty"

text \<open>
  \<open>rows_of groups key\<close> is Go's \<open>groups[key]\<close>, the empty slice for a key that is not
  in the map. \<open>row_key\<close> is the key \<open>processChunk\<close> builds for a row, or the error of
  \<open>parseDate\<close>.
\<close>

definition rows_of :: "(GroupKey \<Rightarrow> row list option) \<Rightarrow> GroupKey \<Rightarrow> row list" where
  "rows_of groups key = (case groups key of None \<Rightarrow> [] | Some rs \<Rightarrow> rs)"

definition row_key :: "nat \<Rightarrow> nat \<Rightarrow> nat \<Rightarrow> row \<Rightarrow> time_error + GroupKey" where
  "row_key timeIdx designIdx ampIdx r =
     (case parseDate (r ! timeIdx) of
        Inl err \<Rightarrow> Inl err
      | Inr date \<Rightarrow>
          Inr \<lparr>Date = date, DesignName = r ! designIdx, Amp = normalizeAmp (r ! ampIdx)\<rparr>)"

text \<open>
  \<open>processChunk\<close>: the loop over the rows of a chunk, with the number of rows
  skipped so far; it returns that number, the fatal error if there is one, and
  the groups.
\<close>

fun processChunk_loop ::
  "row list \<Rightarrow> nat \<Rightarrow> nat \<Rightarrow> nat \<Rightarrow> (GroupKey \<Rightarrow> row list option) \<Rightarrow> bool \<Rightarrow> nat \<Rightarrow>
   nat \<times> sort_error option \<times> (GroupKey \<Rightarrow> row list option)" where
  "processChunk_loop [] timeIdx designIdx ampIdx groups skipErrors skippedRows =
     (skippedRows, None, groups)"
| "processChunk_loop (r # chunk) timeIdx designIdx ampIdx groups skipErrors skippedRows =
     (case row_key timeIdx designIdx ampIdx r of
        Inl err \<Rightarrow>
          if skipErrors
          then processChunk_loop chunk timeIdx designIdx ampIdx groups skipErrors (skippedRows + 1)
          else (skippedRows, Some (errParsingDate (r ! timeIdx) err), groups)
      | Inr key \<Rightarrow>
          processChunk_loop chunk timeIdx designIdx ampIdx
            (groups(key \<mapsto> rows_of groups key @ [r])) skipErrors skippedRows)"

definition processChunk ::
  "row list \<Rightarrow> nat \<Rightarrow> nat \<Rightarrow> nat \<Rightarrow> (GroupKey \<Rightarrow> row list option) \<Rightarrow> bool \<Rightarrow>
   nat \<times> sort_error option \<times> (GroupKey \<Rightarrow> row list option)" where
  "processChunk chunk timeIdx designIdx ampIdx groups skipErrors =
     processChunk_loop chunk timeIdx designIdx ampIdx groups skipErrors 0"

text \<open>
  The reading loop of \<open>SortCSV\<close>: \<open>n\<close> is the number of fields of the header,
  \<open>chunk\<close> the rows not yet processed, \<open>rowCount\<close> the rows read. It returns the
  groups and the number of skipped rows.
\<close>

fun read_loop ::
  "read_result list \<Rightarrow> nat \<Rightarrow> nat \<Rightarrow> nat \<Rightarrow> nat \<Rightarrow> bool \<Rightarrow> row list \<Rightarrow>
   (GroupKey \<Rightarrow> row list option) \<Rightarrow> nat \<Rightarrow> nat \<Rightarrow>
   sort_error + (GroupKey \<Rightarrow> row list option) \<times> nat" where
  "read_loop [] n timeIdx designIdx ampIdx skipErrors chunk groups skippedRows rowCount =
     (if length chunk > 0 then
        (case processChunk chunk timeIdx designIdx ampIdx groups skipErrors of
           (skipped, err, groups') \<Rightarrow>
             (case err of
                Some e \<Rightarrow> if \<not> skipErrors then Inl e else Inr (groups', skippedRows + skipped)
              | None \<Rightarrow> Inr (groups', skippedRows + skipped)))
      else Inr (groups, skippedRows))"
| "read_loop (res # rest) n timeIdx designIdx ampIdx skipErrors chunk groups skippedRows rowCount =
     (case (case res of ReadError \<Rightarrow> None
                      | Fields r \<Rightarrow> if length r = n then Some r else None) of
        None \<Rightarrow>
          if skipErrors
          then read_loop rest n timeIdx designIdx ampIdx skipErrors chunk groups
                 (skippedRows + 1) rowCount
          else Inl (errReadingRow (rowCount + 2))
      | Some r \<Rightarrow>
          if length (chunk @ [r]) \<ge> ChunkSize then
            (case processChunk (chunk @ [r]) timeIdx designIdx ampIdx groups skipErrors of
               (skipped, err, groups') \<Rightarrow>
                 (case err of
                    Some e \<Rightarrow>
                      if \<not> skipErrors then Inl e
                      else read_loop rest n timeIdx designIdx ampIdx skipErrors [] groups'
                             (skippedRows + skipped) (rowCount + 1)
                  | None \<Rightarrow>
                      read_loop rest n timeIdx designIdx ampIdx skipErrors [] groups'
                        (skippedRows + skipped) (rowCount + 1)))
          else read_loop rest n timeIdx designIdx ampIdx skipErrors (chunk @ [r]) groups
                 skippedRows (rowCount + 1))"

text \<open>
  The first part of \<open>SortCSV\<close>, up to the end of the reading loop: the header,
  the groups and the number of skipped rows.
\<close>

definition readGroups ::
  "read_result list \<Rightarrow> bool \<Rightarrow> sort_error + row \<times> (GroupKey \<Rightarrow> row list option) \<times> nat" where
  "readGroups input skipErrors =
     (case input of
        [] \<Rightarrow> Inl errReadingHeader
      | ReadError # rest \<Rightarrow> Inl errReadingHeader
      | Fields hdr # rest \<Rightarrow>
          if colMap hdr ''Time'' = None then Inl (errMissingColumn ''Time'')
          else if colMap hdr ''DesignName'' = None then Inl (errMissingColumn ''DesignName'')
          else if colMap hdr ''LastAmp'' = None then Inl (errMissingColumn ''LastAmp'')
          else
            (case read_loop rest (length hdr) (the (colMap hdr ''Time''))
                    (the (colMap hdr ''DesignName'')) (the (colMap hdr ''LastAmp''))
                    skipErrors [] Map.empty 0 0 of
               Inl e \<Rightarrow> Inl e
             | Inr (groups, skippedRows) \<Rightarrow> Inr (hdr, groups, skippedRows)))"

definition output_name :: "GroupKey \<Rightarrow> string" where
  "output_name key = sanitizeFilename (generateFilename (Date key) (DesignName key) (Amp key))"

text \<open>
  Writing one group: the header goes first into a file that does not exist yet,
  and the rows are appended.
\<close>

definition write_group ::
  "row \<Rightarrow> (GroupKey \<Rightarrow> row list option) \<Rightarrow> GroupKey \<Rightarrow> (string \<Rightarrow> row list option) \<Rightarrow>
   (string \<Rightarrow> row list option)" where
  "write_group hdr groups key dir =
     (case dir (output_name key) of
        None \<Rightarrow> dir(output_name key \<mapsto> hdr # rows_of groups key)
      | Some old \<Rightarrow> dir(output_name key \<mapsto> old @ rows_of groups key))"

fun write_groups ::
  "row \<Rightarrow> (GroupKey \<Rightarrow> row list option) \<Rightarrow> (string \<Rightarrow> bool) \<Rightarrow> GroupKey list \<Rightarrow>
   (string \<Rightarrow> row list option) \<Rightarrow> sort_error option \<times> (string \<Rightarrow> row list option)" where
  "write_groups hdr groups refused [] dir = (None, dir)"
| "write_groups hdr groups refused (key # keys) dir =
     (if refused (output_name key) then (Some (errCreatingOutput (output_name key)), dir)
      else write_groups hdr groups refused keys (write_group hdr groups key dir))"

definition SortCSV ::
  "read_result list \<Rightarrow> bool \<Rightarrow> ((GroupKey \<Rightarrow> row list option) \<Rightarrow> GroupKey list) \<Rightarrow>
   (string \<Rightarrow> bool) \<Rightarrow> (string \<Rightarrow> row list option) \<Rightarrow>
   sort_error option \<times> (string \<Rightarrow> row list option)" where
  "SortCSV input skipErrors visit refused dir =
     (case readGroups input skipErrors of
        Inl e \<Rightarrow> (Some e, dir)
      | Inr (hdr, groups, skippedRows) \<Rightarrow> write_groups hdr groups refused (visit groups) dir)"

text \<open>
  The rows of the input that the reader returns without an error, the key of a
  row under the columns of a header, and the groups after the rows \<open>rs\<close> have
  been added to \<open>g\<close> one by one.
\<close>

fun ok_rows :: "nat \<Rightarrow> read_result list \<Rightarrow> row list" where
  "ok_rows n [] = []"
| "ok_rows n (ReadError # rest) = ok_rows n rest"
| "ok_rows n (Fields r # rest) = (if length r = n then r # ok_rows n rest else ok_rows n rest)"

definition key_of :: "row \<Rightarrow> row \<Rightarrow> time_error + GroupKey" where
  "key_of hdr r =
     row_key (the (colMap hdr ''Time'')) (the (colMap hdr ''DesignName''))
       (the (colMap hdr ''LastAmp'')) r"

definition with_rows ::
  "nat \<Rightarrow> nat \<Rightarrow> nat \<Rightarrow> row list \<Rightarrow> (GroupKey \<Rightarrow> row list option) \<Rightarrow> GroupKey \<Rightarrow> row list option"
where
  "with_rows ti di ai rs g k =
     (case filter (\<lambda>r. row_key ti di ai r = Inr k) rs of
        [] \<Rightarrow> g k
      | new \<Rightarrow> Some (rows_of g k @ new))"

definition accepted :: "read_result list \<Rightarrow> row list" where
  "accepted input = (case input of Fields hdr # rest \<Rightarrow> ok_rows (length hdr) rest | _ \<Rightarrow> [])"

text \<open>
  Four records in the three required columns: the first and the third have the
  same key, and the design names of the second and the fourth differ only in
  characters that are not allowed in a file name.
\<close>

definition csv_header :: row where
  "csv_header = [''Time'', ''DesignName'', ''LastAmp'']"

definition rec1 :: row where
  "rec1 = [''2025/Oct/01 09:00:00.000'', ''Design_A-123'', ''0.97'']"

definition rec2 :: row where
  "rec2 = [''2025/Oct/01 09:01:00.000'', ''Design/B*456'', ''1.50'']"

definition rec3 :: row where
  "rec3 = [''2025/Oct/01 09:02:00.000'', ''Design_A-123'', ''0.97'']"

definition rec4 :: row where
  "rec4 = [''2025/Oct/01 09:03:00.000'', ''DesignB456'', ''1.50'']"

definition key1 :: GroupKey where
  "key1 = \<lparr>Date = ''2025-10-01'', DesignName = ''Design_A-123'', Amp = ''097''\<rparr>"

definition key2 :: GroupKey where
  "key2 = \<lparr>Date = ''2025-10-01'', DesignName = ''Design/B*456'', Amp = ''150''\<rparr>"

definition key4 :: GroupKey where
  "key4 = \<lparr>Date = ''2025-10-01'', DesignName = ''DesignB456'', Amp = ''150''\<rparr>"

section \<open>float64 arithmetic\<close>

text \<open>
  A \<open>float64\<close> is its IEEE 754 binary64 bit pattern, so \<open>math.Float64bits\<close> and
  \<open>math.Float64frombits\<close> are the identity. A finite pattern with sign \<open>s\<close>, biased
  exponent field \<open>E\<close> and fraction field \<open>f\<close> denotes \<open>\<plusminus> f64_man * 2 ^ f64_exp\<close>
  with \<open>f64_man = f\<close>, \<open>f64_exp = - 1074\<close> when \<open>E = 0\<close> and \<open>f64_man = 2 ^ 52 + f\<close>,
  \<open>f64_exp = E - 1075\<close> otherwise. Every operation computes the exact result as a
  rational \<open>n / d * 2 ^ x\<close> and rounds it to nearest, ties to even (\<open>f64_round\<close>);
  each operation rounds on its own (no fused multiply-add, as on amd64). An
  operation that produces a NaN returns \<open>f64_qNaN\<close>: which NaN pattern the hardware
  returns is not modelled, and nothing below depends on it.

  Go leaves the result of a float-to-integer conversion unspecified when the
  value does not fit; \<open>f64_to_int32\<close> takes what the platform returns there as the
  parameter \<open>oor\<close>.
\<close>

type_synonym float64 = "64 word"

definition f64_neg :: "float64 \<Rightarrow> bool" where
  "f64_neg w = (uint w \<ge> 2 ^ 63)"
definition f64_mag :: "float64 \<Rightarrow> int" where
  "f64_mag w = uint w mod 2 ^ 63"
definition f64_inf_mag :: int where
  "f64_inf_mag = 2047 * 2 ^ 52"
definition f64_isNaN :: "float64 \<Rightarrow> bool" where
  "f64_isNaN w = (f64_mag w > f64_inf_mag)"
definition f64_isInf :: "float64 \<Rightarrow> bool" where
  "f64_isInf w = (f64_mag w = f64_inf_mag)"
definition f64_finite :: "float64 \<Rightarrow> bool" where
  "f64_finite w = (f64_mag w < f64_inf_mag)"
definition f64_man :: "float64 \<Rightarrow> int" where
  "f64_man w = (if f64_mag w div 2 ^ 52 = 0 then f64_mag w mod 2 ^ 52
                else 2 ^ 52 + f64_mag w mod 2 ^ 52)"
definition f64_exp :: "float64 \<Rightarrow> int" where
  "f64_exp w = (if f64_mag w div 2 ^ 52 = 0 then - 1074 else f64_mag w div 2 ^ 52 - 1075)"
definition f64_sman :: "float64 \<Rightarrow> int" where
  "f64_sman w = (if f64_neg w then - f64_man w else f64_man w)"
definition f64_val :: "float64 \<Rightarrow> real" where
  "f64_val w = real_of_int (f64_sman w) * 2 powi f64_exp w"

definition shl :: "int \<Rightarrow> int \<Rightarrow> int" where
  "shl a k = a * 2 ^ nat k"
definition rne :: "int \<Rightarrow> int \<Rightarrow> int" where
  "rne n d = (let q = n div d; r = n mod d
              in if 2 * r < d \<or> (2 * r = d \<and> even q) then q else q + 1)"
definition ilog2q :: "int \<Rightarrow> int \<Rightarrow> int" where
  "ilog2q n d = (let l = bitlen n - bitlen d
                 in if shl d l \<le> shl n (- l) then l else l - 1)"
definition f64_pack :: "bool \<Rightarrow> int \<Rightarrow> float64" where
  "f64_pack s mag = word_of_int ((if s then 2 ^ 63 else 0) + mag)"
definition f64_round :: "bool \<Rightarrow> int \<Rightarrow> int \<Rightarrow> int \<Rightarrow> float64" where
  "f64_round s n d x =
     (if n = 0 then f64_pack s 0
      else let e = max (ilog2q n d + x - 52) (- 1074);
               m = rne (shl n (x - e)) (shl d (e - x))
           in f64_pack s (min ((e + 1074) * 2 ^ 52 + m) f64_inf_mag))"
definition f64_qNaN :: float64 where "f64_qNaN = 0x7FF8000000000001"

definition f64_add :: "float64 \<Rightarrow> float64 \<Rightarrow> float64" where
  "f64_add a b =
    (if f64_isNaN a \<or> f64_isNaN b then f64_qNaN
     else if f64_isInf a then (if f64_isInf b \<and> f64_neg a \<noteq> f64_neg b then f64_qNaN else a)
     else if f64_isInf b then b
     else let e = min (f64_exp a) (f64_exp b);
              s = shl (f64_sman a) (f64_exp a - e) + shl (f64_sman b) (f64_exp b - e)
          in if s = 0 then f64_pack (f64_neg a \<and> f64_neg b) 0
             else f64_round (s < 0) \<bar>s\<bar> 1 e)"
definition f64_negate :: "float64 \<Rightarrow> float64" where
  "f64_negate a = a XOR 0x8000000000000000"
definition f64_sub :: "float64 \<Rightarrow> float64 \<Rightarrow> float64" where
  "f64_sub a b = f64_add a (f64_negate b)"
definition f64_mul :: "float64 \<Rightarrow> float64 \<Rightarrow> float64" where
  "f64_mul a b =
    (if f64_isNaN a \<or> f64_isNaN b then f64_qNaN
     else if f64_isInf a \<or> f64_isInf b then
       (if f64_mag a = 0 \<or> f64_mag b = 0 then f64_qNaN
        else f64_pack (f64_neg a \<noteq> f64_neg b) f64_inf_mag)
     else f64_round (f64_neg a \<noteq> f64_neg b) (f64_man a * f64_man b) 1 (f64_exp a + f64_exp b))"
definition f64_div :: "float64 \<Rightarrow> float64 \<Rightarrow> float64" where
  "f64_div a b =
    (if f64_isNaN a \<or> f64_isNaN b then f64_qNaN
     else if f64_isInf a then
       (if f64_isInf b then f64_qNaN else f64_pack (f64_neg a \<noteq> f64_neg b) f64_inf_mag)
     else if f64_isInf b then f64_pack (f64_neg a \<noteq> f64_neg b) 0
     else if f64_mag b = 0 then
       (if f64_mag a = 0 then f64_qNaN else f64_pack (f64_neg a \<noteq> f64_neg b) f64_inf_mag)
     else f64_round (f64_neg a \<noteq> f64_neg b) (f64_man a) (f64_man b) (f64_exp a - f64_exp b))"
definition f64_lt :: "float64 \<Rightarrow> float64 \<Rightarrow> bool" where
  "f64_lt a b =
    (\<not> f64_isNaN a \<and> \<not> f64_isNaN b \<and>
     (if f64_isInf a then f64_neg a \<and> \<not> (f64_isInf b \<and> f64_neg b)
      else if f64_isInf b then \<not> f64_neg b
      else let e = min (f64_exp a) (f64_exp b)
           in shl (f64_sman a) (f64_exp a - e) < shl (f64_sman b) (f64_exp b - e)))"
definition f64_of_int32 :: "32 word \<Rightarrow> float64" where
  "f64_of_int32 x = f64_round (sint x < 0) \<bar>sint x\<bar> 1 0"
definition f64_trunc :: "float64 \<Rightarrow> int" where
  "f64_trunc w = (let t = shl (f64_man w) (f64_exp w) div shl 1 (- f64_exp w)
                  in if f64_neg w then - t else t)"
definition f64_to_int32 :: "(float64 \<Rightarrow> 32 word) \<Rightarrow> float64 \<Rightarrow> 32 word" where
  "f64_to_int32 oor w =
     (if f64_finite w \<and> - (2 ^ 31) \<le> f64_trunc w \<and> f64_trunc w < 2 ^ 31
      then word_of_int (f64_trunc w) else oor w)"
definition f64_lit :: "int \<Rightarrow> int \<Rightarrow> float64" where
  "f64_lit n d = f64_round (n < 0) \<bar>n\<bar> d 0"

section \<open>Package las\<close>

subsection \<open>Bytes\<close>

text \<open>
  \<open>slice b i j\<close> is Go's \<open>b[i:j]\<close>. \<open>copy_at i j src b\<close> is the buffer \<open>b\<close> after
  \<open>copy(b[i:j], src)\<close>, which overwrites as many bytes as the shorter of \<open>b[i:j]\<close>
  and \<open>src\<close> holds (\<open>j\<close> is never beyond the end of \<open>b\<close>), and the
  \<open>binary.LittleEndian\<close> stores into \<open>b[i:j]\<close> are \<open>copy_at\<close> of the encoded bytes.
\<close>

definition slice :: "'a list \<Rightarrow> nat \<Rightarrow> nat \<Rightarrow> 'a list" where
  "slice b i j = take (j - i) (drop i b)"

definition copy_at :: "nat \<Rightarrow> nat \<Rightarrow> 'a list \<Rightarrow> 'a list \<Rightarrow> 'a list" where
  "copy_at i j src b =
     map (\<lambda>k. if i \<le> k \<and> k < j \<and> k < i + length src then src ! (k - i) else b ! k)
       [0..<length b]"

definition bytes_of :: "string \<Rightarrow> byte list" where
  "bytes_of s = map of_char s"

definition PutUint16 :: "uint16 \<Rightarrow> byte list" where
  "PutUint16 v = [ucast v, ucast (drop_bit 8 v)]"

definition PutUint32 :: "uint32 \<Rightarrow> byte list" where
  "PutUint32 v = [ucast v, ucast (drop_bit 8 v), ucast (drop_bit 16 v), ucast (drop_bit 24 v)]"

definition PutUint64 :: "uint64 \<Rightarrow> byte list" where
  "PutUint64 v =
     [ucast v, ucast (drop_bit 8 v), ucast (drop_bit 16 v), ucast (drop_bit 24 v),
      ucast (drop_bit 32 v), ucast (drop_bit 40 v), ucast (drop_bit 48 v), ucast (drop_bit 56 v)]"

definition Uint16 :: "byte list \<Rightarrow> uint16" where
  "Uint16 b = ucast (b ! 0) OR push_bit 8 (ucast (b ! 1))"

definition Uint32 :: "byte list \<Rightarrow> uint32" where
  "Uint32 b = ucast (b ! 0) OR push_bit 8 (ucast (b ! 1)) OR push_bit 16 (ucast (b ! 2))
     OR push_bit 24 (ucast (b ! 3))"

definition Uint64 :: "byte list \<Rightarrow> uint64" where
  "Uint64 b = ucast (b ! 0) OR push_bit 8 (ucast (b ! 1)) OR push_bit 16 (ucast (b ! 2))
     OR push_bit 24 (ucast (b ! 3)) OR push_bit 32 (ucast (b ! 4)) OR push_bit 40 (ucast (b ! 5))
     OR push_bit 48 (ucast (b ! 6)) OR push_bit 56 (ucast (b ! 7))"

subsection \<open>Files\<close>

text \<open>
  The file system holds the content of every file. \<open>blocked\<close> are the paths that
  cannot be created or opened, and \<open>room\<close> is the number of bytes that can still
  be written: a write that does not fit stores the bytes that do and fails.
  Closing a file is taken to succeed.
\<close>

record filesys =
  files :: "string \<Rightarrow> byte list option"
  blocked :: "string \<Rightarrow> bool"
  room :: nat

datatype las_error =
  ErrNoPoints
  | ErrCreate
  | ErrWrite
  | ErrOpen
  | ErrReadHeader
  | ErrSignature
  | ErrUnsupportedFormat byte
  | ErrReadPoint nat
  | Fatal_makeslice

definition os_Create :: "string \<Rightarrow> filesys \<Rightarrow> las_error + filesys" where
  "os_Create name fs =
     (if blocked fs name then Inl ErrCreate
      else Inr (fs\<lparr>files := (files fs)(name \<mapsto> [])\<rparr>))"

definition file_content :: "filesys \<Rightarrow> string \<Rightarrow> byte list" where
  "file_content fs name = (case files fs name of None \<Rightarrow> [] | Some c \<Rightarrow> c)"

definition file_Write :: "string \<Rightarrow> byte list \<Rightarrow> filesys \<Rightarrow> las_error option \<times> filesys" where
  "file_Write name b fs =
     (if length b \<le> room fs
      then (None, fs\<lparr>files := (files fs)(name \<mapsto> file_content fs name @ b),
                       room := room fs - length b\<rparr>)
      else (Some ErrWrite,
            fs\<lparr>files := (files fs)(name \<mapsto> file_content fs name @ take (room fs) b),
               room := 0\<rparr>))"

subsection \<open>writer.go\<close>

record Point =
  X :: float64
  Y :: float64
  Z :: float64
  Intensity :: uint16
  R :: uint16
  G :: uint16
  B :: uint16
  Classification :: byte
  GPSTime :: float64

record Writer =
  points :: "Point list"
  minX :: float64
  minY :: float64
  minZ :: float64
  maxX :: float64
  maxY :: float64
  maxZ :: float64

definition MaxFloat64 :: float64 where
  "MaxFloat64 = 0x7FEFFFFFFFFFFFFF"

definition NewWriter :: Writer where
  "NewWriter = \<lparr>points = [],
     minX = MaxFloat64, minY = MaxFloat64, minZ = MaxFloat64,
     maxX = f64_negate MaxFloat64, maxY = f64_negate MaxFloat64, maxZ = f64_negate MaxFloat64\<rparr>"

definition AddPoint :: "Writer \<Rightarrow> Point \<Rightarrow> Writer" where
  "AddPoint w p =
     (let w0 = w\<lparr>points := points w @ [p]\<rparr>;
          w1 = (if f64_lt (X p) (minX w0) then w0\<lparr>minX := X p\<rparr> else w0);
          w2 = (if f64_lt (Y p) (minY w1) then w1\<lparr>minY := Y p\<rparr> else w1);
          w3 = (if f64_lt (Z p) (minZ w2) then w2\<lparr>minZ := Z p\<rparr> else w2);
          w4 = (if f64_lt (maxX w3) (X p) then w3\<lparr>maxX := X p\<rparr> else w3);
          w5 = (if f64_lt (maxY w4) (Y p) then w4\<lparr>maxY := Y p\<rparr> else w4)
      in if f64_lt (maxZ w5) (Z p) then w5\<lparr>maxZ := Z p\<rparr> else w5)"

text \<open>The scale factor: the constant \<open>0.001\<close>, rounded to a \<open>float64\<close>.\<close>

definition xScale :: float64 where
  "xScale = f64_lit 1 1000"

text \<open>
  The 227 header bytes. \<open>dayOfYear\<close> and \<open>nowYear\<close> are \<open>time.Now().YearDay()\<close>
  and \<open>time.Now().Year()\<close>.
\<close>

definition las_header :: "Writer \<Rightarrow> int \<Rightarrow> int \<Rightarrow> byte list" where
  "las_header w dayOfYear nowYear =
     (let h = replicate 227 0;
          h = copy_at 0 4 (bytes_of ''LASF'') h;
          h = copy_at 4 6 (PutUint16 0) h;
          h = copy_at 6 8 (PutUint16 1) h;
          h = h[24 := 1];
          h = h[25 := 2];
          h = copy_at 26 58 (bytes_of ''CompactMapper'') h;
          h = copy_at 58 90 (bytes_of ''CompactMapper v1.0'') h;
          h = copy_at 90 92 (PutUint16 (word_of_int dayOfYear)) h;
          h = copy_at 92 94 (PutUint16 (word_of_int nowYear)) h;
          h = copy_at 94 96 (PutUint16 227) h;
          h = copy_at 96 100 (PutUint32 227) h;
          h = copy_at 100 104 (PutUint32 0) h;
          h = h[104 := 3];
          h = copy_at 105 107 (PutUint16 34) h;
          h = copy_at 107 111 (PutUint32 (of_nat (length (points w)))) h;
          h = copy_at 111 115 (PutUint32 (of_nat (length (points w)))) h;
          h = copy_at 131 139 (PutUint64 xScale) h;
          h = copy_at 139 147 (PutUint64 xScale) h;
          h = copy_at 147 155 (PutUint64 xScale) h;
          h = copy_at 155 163 (PutUint64 (minX w)) h;
          h = copy_at 163 171 (PutUint64 (minY w)) h;
          h = copy_at 171 179 (PutUint64 (minZ w)) h;
          h = copy_at 179 187 (PutUint64 (maxX w)) h;
          h = copy_at 187 195 (PutUint64 (maxY w)) h;
          h = copy_at 195 203 (PutUint64 (maxZ w)) h;
          h = copy_at 203 211 (PutUint64 (minX w)) h;
          h = copy_at 211 219 (PutUint64 (minY w)) h
      in copy_at 219 227 (PutUint64 (minZ w)) h)"

text \<open>The 34 bytes of one point record (the body of the loop over the points).\<close>

definition las_point :: "(float64 \<Rightarrow> 32 word) \<Rightarrow> Writer \<Rightarrow> Point \<Rightarrow> byte list" where
  "las_point oor w p =
     (let pointData = replicate 34 0;
          x = f64_to_int32 oor (f64_div (f64_sub (X p) (minX w)) xScale);
          y = f64_to_int32 oor (f64_div (f64_sub (Y p) (minY w)) xScale);
          z = f64_to_int32 oor (f64_div (f64_sub (Z p) (minZ w)) xScale);
          pointData = copy_at 0 4 (PutUint32 x) pointData;
          pointData = copy_at 4 8 (PutUint32 y) pointData;
          pointData = copy_at 8 12 (PutUint32 z) pointData;
          pointData = copy_at 12 14 (PutUint16 (Intensity p)) pointData;
          pointData = pointData[14 := 1];
          pointData = pointData[15 := Classification p];
          pointData = pointData[16 := 0];
          pointData = pointData[17 := 0];
          pointData = copy_at 18 20 (PutUint16 0) pointData;
          pointData = copy_at 20 28 (PutUint64 (GPSTime p)) pointData;
          pointData = copy_at 28 30 (PutUint16 (R p)) pointData;
          pointData = copy_at 30 32 (PutUint16 (G p)) pointData
      in copy_at 32 34 (PutUint16 (B p)) pointData)"

fun write_points ::
  "(float64 \<Rightarrow> 32 word) \<Rightarrow> Writer \<Rightarrow> string \<Rightarrow> Point list \<Rightarrow> filesys \<Rightarrow> las_error option \<times> filesys"
where
  "write_points oor w name [] fs = (None, fs)"
| "write_points oor w name (p # ps) fs =
     (case file_Write name (las_point oor w p) fs of
        (Some err, fs') \<Rightarrow> (Some err, fs')
      | (None, fs') \<Rightarrow> write_points oor w name ps fs')"

definition Write ::
  "(float64 \<Rightarrow> 32 word) \<Rightarrow> Writer \<Rightarrow> string \<Rightarrow> int \<Rightarrow> int \<Rightarrow> filesys \<Rightarrow> las_error option \<times> filesys"
where
  "Write oor w filename dayOfYear nowYear fs =
     (if length (points w) = 0 then (Some ErrNoPoints, fs)
      else case os_Create filename fs of
        Inl err \<Rightarrow> (Some err, fs)
      | Inr fs1 \<Rightarrow>
          (case file_Write filename (las_header w dayOfYear nowYear) fs1 of
             (Some err, fs2) \<Rightarrow> (Some err, fs2)
           | (None, fs2) \<Rightarrow> write_points oor w filename (points w) fs2))"

text \<open>The bytes of the artifact when no write fails: the header, then the records.\<close>

definition encoded :: "(float64 \<Rightarrow> 32 word) \<Rightarrow> Writer \<Rightarrow> int \<Rightarrow> int \<Rightarrow> byte list" where
  "encoded oor w dayOfYear nowYear = las_header w dayOfYear nowYear @ concat (map (las_point oor w) (points w))"

subsection \<open>reader.go\<close>

record Header =
  VersionMajor :: byte
  VersionMinor :: byte
  PointFormat :: byte
  PointCount :: uint32
  PointRecordLength :: uint16
  XScale :: float64
  YScale :: float64
  ZScale :: float64
  XOffset :: float64
  YOffset :: float64
  ZOffset :: float64
  MinX :: float64
  MinY :: float64
  MinZ :: float64
  MaxX :: float64
  MaxY :: float64
  MaxZ :: float64

text \<open>
  An open file is its content and the read offset; the content does not change
  while the reader holds it.
\<close>

record Reader =
  content :: "byte list"
  offset :: nat
  header :: Header

definition zero_Header :: Header where
  "zero_Header = \<lparr>VersionMajor = 0, VersionMinor = 0, PointFormat = 0, PointCount = 0,
     PointRecordLength = 0, XScale = 0, YScale = 0, ZScale = 0, XOffset = 0, YOffset = 0,
     ZOffset = 0, MinX = 0, MinY = 0, MinZ = 0, MaxX = 0, MaxY = 0, MaxZ = 0\<rparr>"

text \<open>
  \<open>io.ReadFull\<close> of \<open>n\<close> bytes: the bytes and the advanced offset, or no bytes when
  fewer than \<open>n\<close> are left (the offset is then at the end of the file).
\<close>

definition ReadFull :: "Reader \<Rightarrow> nat \<Rightarrow> byte list option \<times> Reader" where
  "ReadFull r n =
     (if offset r + n \<le> length (content r)
      then (Some (slice (content r) (offset r) (offset r + n)), r\<lparr>offset := offset r + n\<rparr>)
      else (None, r\<lparr>offset := max (offset r) (length (content r))\<rparr>))"

definition Seek :: "Reader \<Rightarrow> nat \<Rightarrow> Reader" where
  "Seek r pos = r\<lparr>offset := pos\<rparr>"

definition readHeader :: "Reader \<Rightarrow> las_error + Reader" where
  "readHeader r =
     (case ReadFull r 227 of
        (None, r') \<Rightarrow> Inl ErrReadHeader
      | (Some h, r') \<Rightarrow>
          if slice h 0 4 \<noteq> bytes_of ''LASF'' then Inl ErrSignature
          else Inr (r'\<lparr>header := \<lparr>
            VersionMajor = h ! 24,
            VersionMinor = h ! 25,
            PointFormat = h ! 104,
            PointCount = Uint32 (slice h 107 111),
            PointRecordLength = Uint16 (slice h 105 107),
            XScale = Uint64 (slice h 131 139),
            YScale = Uint64 (slice h 139 147),
            ZScale = Uint64 (slice h 147 155),
            XOffset = Uint64 (slice h 155 163),
            YOffset = Uint64 (slice h 163 171),
            ZOffset = Uint64 (slice h 171 179),
            MinX = Uint64 (slice h 203 211),
            MinY = Uint64 (slice h 211 219),
            MinZ = Uint64 (slice h 219 227),
            MaxX = Uint64 (slice h 179 187),
            MaxY = Uint64 (slice h 187 195),
            MaxZ = Uint64 (slice h 195 203)\<rparr>\<rparr>))"

definition NewReader :: "string \<Rightarrow> filesys \<Rightarrow> las_error + Reader" where
  "NewReader filename fs =
     (if blocked fs filename then Inl ErrOpen
      else case files fs filename of
        None \<Rightarrow> Inl ErrOpen
      | Some c \<Rightarrow> readHeader \<lparr>content = c, offset = 0, header = zero_Header\<rparr>)"

definition GetHeader :: "Reader \<Rightarrow> Header" where
  "GetHeader r = header r"

definition point_xyz :: "Header \<Rightarrow> byte list \<Rightarrow> float64 \<times> float64 \<times> float64" where
  "point_xyz h pointData =
     (let x = Uint32 (slice pointData 0 4);
          y = Uint32 (slice pointData 4 8);
          z = Uint32 (slice pointData 8 12)
      in (f64_add (f64_mul (f64_of_int32 x) (XScale h)) (XOffset h),
          f64_add (f64_mul (f64_of_int32 y) (YScale h)) (YOffset h),
          f64_add (f64_mul (f64_of_int32 z) (ZScale h)) (ZOffset h)))"

definition point_format2 :: "Header \<Rightarrow> byte list \<Rightarrow> Point" where
  "point_format2 h pointData =
     (case point_xyz h pointData of (x, y, z) \<Rightarrow>
        \<lparr>X = x, Y = y, Z = z,
         Intensity = Uint16 (slice pointData 12 14),
         R = Uint16 (slice pointData 20 22),
         G = Uint16 (slice pointData 22 24),
         B = Uint16 (slice pointData 24 26),
         Classification = pointData ! 15,
         GPSTime = 0\<rparr>)"

definition point_format3 :: "Header \<Rightarrow> byte list \<Rightarrow> Point" where
  "point_format3 h pointData =
     (case point_xyz h pointData of (x, y, z) \<Rightarrow>
        \<lparr>X = x, Y = y, Z = z,
         Intensity = Uint16 (slice pointData 12 14),
         R = Uint16 (slice pointData 28 30),
         G = Uint16 (slice pointData 30 32),
         B = Uint16 (slice pointData 32 34),
         Classification = pointData ! 15,
         GPSTime = Uint64 (slice pointData 20 28)\<rparr>)"

text \<open>
  \<open>make([]Point, 0, n)\<close> reserves the backing array of the result before the first
  record is read: \<open>n\<close> elements of 48 bytes each (three \<open>float64\<close>, four \<open>uint16\<close>,
  one \<open>uint8\<close> padded to the next multiple of 8, one \<open>float64\<close>), where \<open>n\<close> is the
  point count taken from the file header. \<open>heap\<close> is the size of the largest block
  the runtime can obtain when the call is made. When the block cannot be had the
  call does not return: the runtime stops the process (in \<open>runtime.makeslice\<close>,
  with the panic \<open>cap out of range\<close> or the fatal error \<open>out of memory\<close>). That
  outcome is the value \<open>Fatal_makeslice\<close>; it is not an \<open>error\<close> the caller receives.
\<close>

definition make_Points :: "nat \<Rightarrow> nat \<Rightarrow> Point list option" where
  "make_Points heap n = (if 48 * n \<le> heap then Some [] else None)"

text \<open>
  The two read loops: \<open>n\<close> records are still to be read, \<open>i\<close> is the loop counter
  and \<open>pts\<close> the points read so far.
\<close>

fun readPointsFormat2_loop ::
  "nat \<Rightarrow> nat \<Rightarrow> Point list \<Rightarrow> Reader \<Rightarrow> (las_error + Point list) \<times> Reader" where
  "readPointsFormat2_loop 0 i pts r = (Inr pts, r)"
| "readPointsFormat2_loop (Suc n) i pts r =
     (case ReadFull r 26 of
        (None, r') \<Rightarrow> (Inl (ErrReadPoint i), r')
      | (Some pointData, r') \<Rightarrow>
          readPointsFormat2_loop n (i + 1) (pts @ [point_format2 (header r) pointData]) r')"

fun readPointsFormat3_loop ::
  "nat \<Rightarrow> nat \<Rightarrow> Point list \<Rightarrow> Reader \<Rightarrow> (las_error + Point list) \<times> Reader" where
  "readPointsFormat3_loop 0 i pts r = (Inr pts, r)"
| "readPointsFormat3_loop (Suc n) i pts r =
     (case ReadFull r 34 of
        (None, r') \<Rightarrow> (Inl (ErrReadPoint i), r')
      | (Some pointData, r') \<Rightarrow>
          readPointsFormat3_loop n (i + 1) (pts @ [point_format3 (header r) pointData]) r')"

definition readPointsFormat2 :: "nat \<Rightarrow> Reader \<Rightarrow> (las_error + Point list) \<times> Reader" where
  "readPointsFormat2 heap r =
     (case make_Points heap (unat (PointCount (header r))) of
        None \<Rightarrow> (Inl Fatal_makeslice, r)
      | Some pts \<Rightarrow> readPointsFormat2_loop (unat (PointCount (header r))) 0 pts r)"

definition readPointsFormat3 :: "nat \<Rightarrow> Reader \<Rightarrow> (las_error + Point list) \<times> Reader" where
  "readPointsFormat3 heap r =
     (case make_Points heap (unat (PointCount (header r))) of
        None \<Rightarrow> (Inl Fatal_makeslice, r)
      | Some pts \<Rightarrow> readPointsFormat3_loop (unat (PointCount (header r))) 0 pts r)"

definition ReadPoints :: "nat \<Rightarrow> Reader \<Rightarrow> (las_error + Point list) \<times> Reader" where
  "ReadPoints heap r =
     (let r1 = Seek r 227
      in if PointFormat (header r1) = 2 then readPointsFormat2 heap r1
         else if PointFormat (header r1) = 3 then readPointsFormat3 heap r1
         else (Inl (ErrUnsupportedFormat (PointFormat (header r1))), r1))"

text \<open>Opening a file and reading all its points, as every caller does.\<close>

definition decode :: "nat \<Rightarrow> string \<Rightarrow> filesys \<Rightarrow> las_error + Point list" where
  "decode heap filename fs =
     (case NewReader filename fs of Inl err \<Rightarrow> Inl err | Inr r \<Rightarrow> fst (ReadPoints heap r))"

subsection \<open>Concrete inputs\<close>

text \<open>
  The value a float-to-int32 conversion returns on amd64 when the value does not
  fit (the result of \<open>CVTTSD2SL\<close>), a disk with nothing on it, and a point with zero
  coordinates and no timestamp.
\<close>

definition oor_amd64 :: "float64 \<Rightarrow> 32 word" where
  "oor_amd64 f = 0x80000000"

definition empty_disk :: filesys where
  "empty_disk = \<lparr>files = (\<lambda>name. None), blocked = (\<lambda>name. False), room = 1000000\<rparr>"

definition origin_point :: Point where
  "origin_point = \<lparr>X = 0, Y = 0, Z = 0, Intensity = 0, R = 65535, G = 0, B = 0,
     Classification = 1, GPSTime = 0\<rparr>"

text \<open>The format byte and the point count a file declares in its header.\<close>

definition declared_format :: "byte list \<Rightarrow> byte" where
  "declared_format c = c ! 104"

definition declared_count :: "byte list \<Rightarrow> nat" where
  "declared_count c = unat (Uint32 (slice c 107 111))"

definition parsed :: "byte list \<Rightarrow> Header" where
  "parsed c = \<lparr>
     VersionMajor = c ! 24,
     VersionMinor = c ! 25,
     PointFormat = c ! 104,
     PointCount = Uint32 (slice c 107 111),
     PointRecordLength = Uint16 (slice c 105 107),
     XScale = Uint64 (slice c 131 139),
     YScale = Uint64 (slice c 139 147),
     ZScale = Uint64 (slice c 147 155),
     XOffset = Uint64 (slice c 155 163),
     YOffset = Uint64 (slice c 163 171),
     ZOffset = Uint64 (slice c 171 179),
     MinX = Uint64 (slice c 203 211),
     MinY = Uint64 (slice c 211 219),
     MinZ = Uint64 (slice c 219 227),
     MaxX = Uint64 (slice c 179 187),
     MaxY = Uint64 (slice c 187 195),
     MaxZ = Uint64 (slice c 195 203)\<rparr>"

definition invalid_disk :: filesys where
  "invalid_disk = empty_disk\<lparr>files := (\<lambda>name. if name = ''invalid.las''
     then Some (bytes_of ''NOT A LAS FILE'') else None)\<rparr>"

text \<open>
  The \<open>k\<close>-th record after the header of a file whose records take \<open>len\<close> bytes, a
  point with the timestamp 100.0, and two files made by hand: one that declares
  format 2 and holds one 26-byte record, and a bare header that declares
  4294967295 records of format 3.
\<close>

definition record_at :: "byte list \<Rightarrow> nat \<Rightarrow> nat \<Rightarrow> byte list" where
  "record_at c len k = slice c (227 + len * k) (227 + len * k + len)"

definition stamped_point :: Point where
  "stamped_point = \<lparr>X = 0, Y = 0, Z = 0, Intensity = 7, R = 0, G = 65535, B = 0,
     Classification = 1, GPSTime = 0x4059000000000000\<rparr>"

definition format2_file :: "byte list" where
  "format2_file = (las_header (AddPoint NewWriter origin_point) 274 2025)[104 := 2] @
     take 20 (las_point oor_amd64 (AddPoint NewWriter origin_point) origin_point) @
     PutUint16 1 @ PutUint16 2 @ PutUint16 3"

definition huge_count_file :: "byte list" where
  "huge_count_file =
     copy_at 107 111 (PutUint32 4294967295) (las_header (AddPoint NewWriter origin_point) 274 2025)"

definition disk_with :: "byte list \<Rightarrow> filesys" where
  "disk_with c = empty_disk\<lparr>files := (\<lambda>name. if name = ''in.las'' then Some c else None)\<rparr>"

subsection \<open>Writers and points of the tests\<close>

text \<open>
  The fields of a \<open>Writer\<close> are not exported: a writer is \<open>NewWriter\<close> followed by
  one \<open>AddPoint\<close> for each point. \<open>test_point1\<close> and \<open>test_point2\<close> are the first two
  points of \<open>TestWriteAndRead\<close>, their coordinates the \<open>float64\<close> nearest to the
  decimal constants of the test. \<open>trunc_toward_zero\<close> is the integer part of a
  real number.
\<close>

definition add_all :: "Point list \<Rightarrow> Writer" where
  "add_all ps = foldl AddPoint NewWriter ps"

definition test_point1 :: Point where
  "test_point1 = \<lparr>X = f64_lit 1005 10, Y = f64_lit 2003 10, Z = f64_lit 52 10,
     Intensity = 100, R = 65535, G = 0, B = 0, Classification = 1,
     GPSTime = f64_lit 17277762028 10\<rparr>"

definition test_point2 :: Point where
  "test_point2 = \<lparr>X = f64_lit 1006 10, Y = f64_lit 2004 10, Z = f64_lit 53 10,
     Intensity = 150, R = 0, G = 65535, B = 0, Classification = 2,
     GPSTime = f64_lit 1727776203 1\<rparr>"

definition trunc_toward_zero :: "real \<Rightarrow> int" where
  "trunc_toward_zero x = (if 0 \<le> x then \<lfloor>x\<rfloor> else \<lceil>x\<rceil>)"

section \<open>Properties\<close>

subsection \<open>Colour from the two pass counters\<close>

lemma full_channel_is_max: "(65535 :: uint16) = - 1"
  by simp

text \<open>
  C8. For every pair of counters the colour is full red \<open>(65535, 0, 0)\<close> when the
  pass count is below the target, full green \<open>(0, 65535, 0)\<close> when they are equal
  and full blue \<open>(0, 0, 65535)\<close> when it is above; a tie is green.
\<close>

theorem determineColor_tristate:
  "(a < b \<longrightarrow> determineColor a b = (65535, 0, 0)) \<and>
   (a = b \<longrightarrow> determineColor a b = (0, 65535, 0)) \<and>
   (a > b \<longrightarrow> determineColor a b = (0, 0, 65535))"
  by (simp add: determineColor_def)

theorem determineColor_tristate_witness:
  "determineColor 1 4 = (65535, 0, 0) \<and> determineColor 4 4 = (0, 65535, 0) \<and>
   determineColor 5 4 = (0, 0, 65535)"
  using determineColor_tristate [of 1 4] determineColor_tristate [of 4 4]
    determineColor_tristate [of 5 4]
  by simp

subsection \<open>Amplitude normalisation\<close>

lemma ReplaceAll_dot: "ReplaceAll s ''.'' [] = filter (\<lambda>c. c \<noteq> CHR ''.'') s"
proof (induction s)
  case Nil
  show ?case by (subst ReplaceAll.simps) simp
next
  case (Cons c s)
  show ?case
  proof (cases "c = CHR ''.''")
    case True
    then have "ReplaceAll (c # s) ''.'' [] = ReplaceAll s ''.'' []"
      by (subst ReplaceAll.simps) simp
    with Cons True show ?thesis by simp
  next
    case False
    then have "ReplaceAll (c # s) ''.'' [] = c # ReplaceAll s ''.'' []"
      by (subst ReplaceAll.simps) simp
    with Cons False show ?thesis by simp
  qed
qed

text \<open>
  C5. The empty string and the placeholder \<open>?\<close> are mapped to the sentinel
  \<open>no_amp\<close>; every other string is mapped to its first three bytes after all
  decimal points have been removed (fewer when fewer remain): truncation, with no
  numeric rounding.
\<close>

theorem normalizeAmp_truncates:
  "normalizeAmp [] = ''no_amp'' \<and> normalizeAmp ''?'' = ''no_amp'' \<and>
   (amp \<noteq> [] \<and> amp \<noteq> ''?'' \<longrightarrow>
      normalizeAmp amp = take 3 (filter (\<lambda>c. c \<noteq> CHR ''.'') amp))"
  by (simp add: normalizeAmp_def ReplaceAll_dot Let_def)

theorem normalizeAmp_truncates_witness:
  "normalizeAmp ''0.97'' = ''097'' \<and> normalizeAmp ''2.10'' = ''210'' \<and>
   normalizeAmp ''1.5'' = ''15'' \<and> normalizeAmp ''0.9789'' = ''097''"
  using normalizeAmp_truncates [of "''0.97''"] normalizeAmp_truncates [of "''2.10''"]
    normalizeAmp_truncates [of "''1.5''"] normalizeAmp_truncates [of "''0.9789''"]
  by simp

subsection \<open>Little-endian fields and slices\<close>

lemma byte_part:
  "bit (push_bit k (ucast (ucast (drop_bit k (v :: 'a::len word)) :: byte) :: 'a word)) n
     \<longleftrightarrow> k \<le> n \<and> n < k + 8 \<and> bit v n"
  by (auto simp: bit_simps dest: bit_imp_le_length)

lemma byte_part0:
  "bit (ucast (ucast (v :: 'a::len word) :: byte) :: 'a word) n \<longleftrightarrow> n < 8 \<and> bit v n"
  using byte_part [of 0 v n] by simp

lemma Uint16_PutUint16 [simp]: "Uint16 (PutUint16 v) = v"
proof (rule bit_word_eqI)
  fix n assume "n < LENGTH(16)"
  then have "n < 8 \<or> (8 \<le> n \<and> n < 16)"
    by auto
  then show "bit (Uint16 (PutUint16 v)) n = bit v n"
    unfolding Uint16_def PutUint16_def
    by (auto simp: bit_or_iff byte_part byte_part0)
qed

lemma Uint32_PutUint32 [simp]: "Uint32 (PutUint32 v) = v"
proof (rule bit_word_eqI)
  fix n assume "n < LENGTH(32)"
  then have "n < 8 \<or> (8 \<le> n \<and> n < 16) \<or> (16 \<le> n \<and> n < 24) \<or> (24 \<le> n \<and> n < 32)"
    by auto
  then show "bit (Uint32 (PutUint32 v)) n = bit v n"
    unfolding Uint32_def PutUint32_def
    by (auto simp: bit_or_iff byte_part byte_part0)
qed

lemma Uint64_PutUint64 [simp]: "Uint64 (PutUint64 v) = v"
proof (rule bit_word_eqI)
  fix n assume "n < LENGTH(64)"
  then have "n < 8 \<or> (8 \<le> n \<and> n < 16) \<or> (16 \<le> n \<and> n < 24) \<or> (24 \<le> n \<and> n < 32)
     \<or> (32 \<le> n \<and> n < 40) \<or> (40 \<le> n \<and> n < 48) \<or> (48 \<le> n \<and> n < 56) \<or> (56 \<le> n \<and> n < 64)"
    by auto
  then show "bit (Uint64 (PutUint64 v)) n = bit v n"
    unfolding Uint64_def PutUint64_def
    by (auto simp: bit_or_iff byte_part byte_part0)
qed

lemma length_PutUint16 [simp]: "length (PutUint16 v) = 2"
  by (simp add: PutUint16_def)
lemma length_PutUint32 [simp]: "length (PutUint32 v) = 4"
  by (simp add: PutUint32_def)
lemma length_PutUint64 [simp]: "length (PutUint64 v) = 8"
  by (simp add: PutUint64_def)
lemma length_bytes_of [simp]: "length (bytes_of s) = length s"
  by (simp add: bytes_of_def)
lemma length_copy_at [simp]: "length (copy_at i j src b) = length b"
  by (simp add: copy_at_def)
lemma nth_copy_at:
  "k < length b \<Longrightarrow>
   copy_at i j src b ! k = (if i \<le> k \<and> k < j \<and> k < i + length src then src ! (k - i) else b ! k)"
  by (simp add: copy_at_def)
lemma length_slice [simp]: "j \<le> length b \<Longrightarrow> length (slice b i j) = j - i"
  by (simp add: slice_def)
lemma nth_slice: "k < j - i \<Longrightarrow> j \<le> length b \<Longrightarrow> slice b i j ! k = b ! (i + k)"
  by (simp add: slice_def)

lemma slice_eqI:
  assumes "j \<le> length h" and "length src = j - i"
    and "\<And>k. k < j - i \<Longrightarrow> h ! (i + k) = src ! k"
  shows "slice h i j = src"
proof (rule nth_equalityI)
  show "length (slice h i j) = length src" using assms by simp
next
  fix k assume "k < length (slice h i j)"
  then have "k < j - i" using assms by simp
  then show "slice h i j ! k = src ! k" using assms by (simp add: nth_slice)
qed

lemma slice_append_left: "j \<le> length xs \<Longrightarrow> slice (xs @ ys) i j = slice xs i j"
  by (simp add: slice_def)

lemma slice_append_right:
  "length xs \<le> i \<Longrightarrow> slice (xs @ ys) i j = slice ys (i - length xs) (j - length xs)"
  by (simp add: slice_def)

lemma slice_whole: "slice xs 0 (length xs) = xs"
  by (simp add: slice_def)

subsection \<open>The header and the point record, field by field\<close>

lemma header_length [simp]: "length (las_header w yd yr) = 227"
  by (simp add: las_header_def Let_def)

lemma header_signature: "slice (las_header w yd yr) 0 4 = bytes_of ''LASF''"
  by (rule slice_eqI) (simp_all add: las_header_def Let_def nth_copy_at)

lemma header_version: "las_header w yd yr ! 24 = 1 \<and> las_header w yd yr ! 25 = 2"
  by (simp add: las_header_def Let_def nth_copy_at)

lemma header_format: "las_header w yd yr ! 104 = 3"
  by (simp add: las_header_def Let_def nth_copy_at)

lemma header_reclen: "slice (las_header w yd yr) 105 107 = PutUint16 34"
  by (rule slice_eqI) (simp_all add: las_header_def Let_def nth_copy_at)

lemma header_count:
  "slice (las_header w yd yr) 107 111 = PutUint32 (of_nat (length (points w)))"
  by (rule slice_eqI) (simp_all add: las_header_def Let_def nth_copy_at)

lemma header_xscale: "slice (las_header w yd yr) 131 139 = PutUint64 xScale"
  by (rule slice_eqI) (simp_all add: las_header_def Let_def nth_copy_at)
lemma header_yscale: "slice (las_header w yd yr) 139 147 = PutUint64 xScale"
  by (rule slice_eqI) (simp_all add: las_header_def Let_def nth_copy_at)
lemma header_zscale: "slice (las_header w yd yr) 147 155 = PutUint64 xScale"
  by (rule slice_eqI) (simp_all add: las_header_def Let_def nth_copy_at)
lemma header_xoffset: "slice (las_header w yd yr) 155 163 = PutUint64 (minX w)"
  by (rule slice_eqI) (simp_all add: las_header_def Let_def nth_copy_at)
lemma header_yoffset: "slice (las_header w yd yr) 163 171 = PutUint64 (minY w)"
  by (rule slice_eqI) (simp_all add: las_header_def Let_def nth_copy_at)
lemma header_zoffset: "slice (las_header w yd yr) 171 179 = PutUint64 (minZ w)"
  by (rule slice_eqI) (simp_all add: las_header_def Let_def nth_copy_at)
lemma header_maxx: "slice (las_header w yd yr) 179 187 = PutUint64 (maxX w)"
  by (rule slice_eqI) (simp_all add: las_header_def Let_def nth_copy_at)
lemma header_maxy: "slice (las_header w yd yr) 187 195 = PutUint64 (maxY w)"
  by (rule slice_eqI) (simp_all add: las_header_def Let_def nth_copy_at)
lemma header_maxz: "slice (las_header w yd yr) 195 203 = PutUint64 (maxZ w)"
  by (rule slice_eqI) (simp_all add: las_header_def Let_def nth_copy_at)
lemma header_minx: "slice (las_header w yd yr) 203 211 = PutUint64 (minX w)"
  by (rule slice_eqI) (simp_all add: las_header_def Let_def nth_copy_at)
lemma header_miny: "slice (las_header w yd yr) 211 219 = PutUint64 (minY w)"
  by (rule slice_eqI) (simp_all add: las_header_def Let_def nth_copy_at)
lemma header_minz: "slice (las_header w yd yr) 219 227 = PutUint64 (minZ w)"
  by (rule slice_eqI) (simp_all add: las_header_def Let_def nth_copy_at)

lemma point_length [simp]: "length (las_point oor w p) = 34"
  by (simp add: las_point_def Let_def)

lemma point_x:
  "slice (las_point oor w p) 0 4 =
     PutUint32 (f64_to_int32 oor (f64_div (f64_sub (X p) (minX w)) xScale))"
  by (rule slice_eqI) (simp_all add: las_point_def Let_def nth_copy_at)
lemma point_y:
  "slice (las_point oor w p) 4 8 =
     PutUint32 (f64_to_int32 oor (f64_div (f64_sub (Y p) (minY w)) xScale))"
  by (rule slice_eqI) (simp_all add: las_point_def Let_def nth_copy_at)
lemma point_z:
  "slice (las_point oor w p) 8 12 =
     PutUint32 (f64_to_int32 oor (f64_div (f64_sub (Z p) (minZ w)) xScale))"
  by (rule slice_eqI) (simp_all add: las_point_def Let_def nth_copy_at)
lemma point_intensity: "slice (las_point oor w p) 12 14 = PutUint16 (Intensity p)"
  by (rule slice_eqI) (simp_all add: las_point_def Let_def nth_copy_at)
lemma point_classification: "las_point oor w p ! 15 = Classification p"
  by (simp add: las_point_def Let_def nth_copy_at)
lemma point_gpstime: "slice (las_point oor w p) 20 28 = PutUint64 (GPSTime p)"
  by (rule slice_eqI) (simp_all add: las_point_def Let_def nth_copy_at)
lemma point_r: "slice (las_point oor w p) 28 30 = PutUint16 (R p)"
  by (rule slice_eqI) (simp_all add: las_point_def Let_def nth_copy_at)
lemma point_g: "slice (las_point oor w p) 30 32 = PutUint16 (G p)"
  by (rule slice_eqI) (simp_all add: las_point_def Let_def nth_copy_at)
lemma point_b: "slice (las_point oor w p) 32 34 = PutUint16 (B p)"
  by (rule slice_eqI) (simp_all add: las_point_def Let_def nth_copy_at)


subsection \<open>Writing\<close>

lemma file_Write_fits:
  "length b \<le> room fs \<Longrightarrow> files fs name = Some c \<Longrightarrow>
   file_Write name b fs = (None, fs\<lparr>files := (files fs)(name \<mapsto> c @ b), room := room fs - length b\<rparr>)"
  by (simp add: file_Write_def file_content_def)

lemma file_Write_full:
  "room fs < length b \<Longrightarrow> fst (file_Write name b fs) = Some ErrWrite"
  by (simp add: file_Write_def)

lemma write_points_fits:
  "34 * length ps \<le> room fs \<Longrightarrow> files fs name = Some c \<Longrightarrow>
   write_points oor w name ps fs =
     (None, fs\<lparr>files := (files fs)(name \<mapsto> c @ concat (map (las_point oor w) ps)),
               room := room fs - 34 * length ps\<rparr>)"
proof (induction ps arbitrary: fs c)
  case Nil
  then have "(files fs)(name \<mapsto> c) = files fs" by (simp add: fun_upd_idem)
  then show ?case by simp
next
  case (Cons p ps)
  define fs' where "fs' = fs\<lparr>files := (files fs)(name \<mapsto> c @ las_point oor w p), room := room fs - 34\<rparr>"
  define v where "v = (c @ las_point oor w p) @ concat (map (las_point oor w) ps)"
  have w: "file_Write name (las_point oor w p) fs = (None, fs')"
    using Cons.prems file_Write_fits [of "las_point oor w p" fs name c] by (simp add: fs'_def)
  have "34 * length ps \<le> room fs'" "files fs' name = Some (c @ las_point oor w p)"
    using Cons.prems by (simp_all add: fs'_def)
  then have ih: "write_points oor w name ps fs' =
     (None, fs'\<lparr>files := (files fs')(name \<mapsto> v), room := room fs' - 34 * length ps\<rparr>)"
    unfolding v_def by (rule Cons.IH)
  have e: "fs'\<lparr>files := (files fs')(name \<mapsto> v), room := room fs' - 34 * length ps\<rparr> =
      fs\<lparr>files := (files fs)(name \<mapsto> v), room := room fs - 34 * length (p # ps)\<rparr>"
    by (simp add: fs'_def)
  have "write_points oor w name (p # ps) fs = write_points oor w name ps fs'"
    using w by simp
  also have "\<dots> = (None, fs\<lparr>files := (files fs)(name \<mapsto> v), room := room fs - 34 * length (p # ps)\<rparr>)"
    using ih e by simp
  finally have r: "write_points oor w name (p # ps) fs =
      (None, fs\<lparr>files := (files fs)(name \<mapsto> v), room := room fs - 34 * length (p # ps)\<rparr>)" .
  have v: "v = c @ concat (map (las_point oor w) (p # ps))" by (simp add: v_def)
  show ?case using r unfolding v .
qed

lemma write_points_full:
  "room fs < 34 * length ps \<Longrightarrow> fst (write_points oor w name ps fs) = Some ErrWrite"
proof (induction ps arbitrary: fs)
  case Nil
  then show ?case by simp
next
  case (Cons p ps)
  show ?case
  proof (cases "34 \<le> room fs")
    case True
    then have w: "file_Write name (las_point oor w p) fs =
        (None, fs\<lparr>files := (files fs)(name \<mapsto> file_content fs name @ las_point oor w p),
                  room := room fs - 34\<rparr>)"
      by (simp add: file_Write_def)
    have "fst (write_points oor w name ps
        (fs\<lparr>files := (files fs)(name \<mapsto> file_content fs name @ las_point oor w p),
            room := room fs - 34\<rparr>)) = Some ErrWrite"
      using Cons.prems True by (intro Cons.IH) simp
    with w show ?thesis by simp
  next
    case False
    then show ?thesis by (simp add: file_Write_def)
  qed
qed

lemma Write_fits:
  assumes "points w \<noteq> []" and "\<not> blocked fs name"
    and "227 + 34 * length (points w) \<le> room fs"
  shows "Write oor w name yd yr fs =
     (None, fs\<lparr>files := (files fs)(name \<mapsto> encoded oor w yd yr),
               room := room fs - (227 + 34 * length (points w))\<rparr>)"
proof -
  let ?fs1 = "fs\<lparr>files := (files fs)(name \<mapsto> [])\<rparr>"
  let ?fs2 = "?fs1\<lparr>files := (files ?fs1)(name \<mapsto> [] @ las_header w yd yr), room := room ?fs1 - 227\<rparr>"
  have c: "os_Create name fs = Inr ?fs1" using assms by (simp add: os_Create_def)
  have h: "file_Write name (las_header w yd yr) ?fs1 = (None, ?fs2)"
    using assms file_Write_fits [of "las_header w yd yr" ?fs1 name "[]"] by simp
  have p: "write_points oor w name (points w) ?fs2 =
      (None, ?fs2\<lparr>files := (files ?fs2)(name \<mapsto> las_header w yd yr @ concat (map (las_point oor w) (points w))),
                  room := room ?fs2 - 34 * length (points w)\<rparr>)"
    using assms by (intro write_points_fits) simp_all
  show ?thesis using assms c h p by (simp add: Write_def encoded_def)
qed

lemma Write_ok_iff:
  "fst (Write oor w name yd yr fs) = None \<longleftrightarrow>
     points w \<noteq> [] \<and> \<not> blocked fs name \<and> 227 + 34 * length (points w) \<le> room fs"
proof (cases "points w \<noteq> [] \<and> \<not> blocked fs name")
  case False
  then show ?thesis by (auto simp: Write_def os_Create_def)
next
  case True
  show ?thesis
  proof (cases "227 \<le> room fs")
    case False
    then have "fst (file_Write name (las_header w yd yr) (fs\<lparr>files := (files fs)(name \<mapsto> [])\<rparr>)) = Some ErrWrite"
      by (simp add: file_Write_def)
    with True False show ?thesis
      by (auto simp: Write_def os_Create_def split: prod.splits option.splits)
  next
    case h: True
    show ?thesis
    proof (cases "227 + 34 * length (points w) \<le> room fs")
      case True
      with \<open>points w \<noteq> [] \<and> \<not> blocked fs name\<close> show ?thesis
        by (simp add: Write_fits)
    next
      case False
      let ?fs1 = "fs\<lparr>files := (files fs)(name \<mapsto> [])\<rparr>"
      let ?fs2 = "?fs1\<lparr>files := (files ?fs1)(name \<mapsto> [] @ las_header w yd yr), room := room ?fs1 - 227\<rparr>"
      have hw: "file_Write name (las_header w yd yr) ?fs1 = (None, ?fs2)"
        using h file_Write_fits [of "las_header w yd yr" ?fs1 name "[]"] by simp
      have "fst (write_points oor w name (points w) ?fs2) = Some ErrWrite"
        using False h by (intro write_points_full) simp
      with hw \<open>points w \<noteq> [] \<and> \<not> blocked fs name\<close> False show ?thesis
        by (simp add: Write_def os_Create_def)
    qed
  qed
qed


subsection \<open>Reading\<close>

lemma ReadFull_enough:
  "offset r + n \<le> length (content r) \<Longrightarrow>
   ReadFull r n = (Some (slice (content r) (offset r) (offset r + n)), r\<lparr>offset := offset r + n\<rparr>)"
  by (simp add: ReadFull_def)

lemma ReadFull_short:
  "length (content r) < offset r + n \<Longrightarrow> fst (ReadFull r n) = None"
  by (simp add: ReadFull_def)

lemma ReadFull_keeps:
  "content (snd (ReadFull r n)) = content r \<and> header (snd (ReadFull r n)) = header r"
  by (simp add: ReadFull_def)

lemma format3_loop_keeps:
  "content (snd (readPointsFormat3_loop n i pts r)) = content r \<and>
   header (snd (readPointsFormat3_loop n i pts r)) = header r"
proof (induction n arbitrary: i pts r)
  case 0
  show ?case by simp
next
  case (Suc n)
  show ?case
  proof (cases "ReadFull r 34")
    case (Pair res r')
    with ReadFull_keeps [of r 34] have k: "content r' = content r" "header r' = header r" by simp_all
    show ?thesis
    proof (cases res)
      case None
      with Pair k show ?thesis by simp
    next
      case (Some pointData)
      with Pair k Suc.IH [of "i + 1" "pts @ [point_format3 (header r) pointData]" r']
      show ?thesis by simp
    qed
  qed
qed

lemma format2_loop_keeps:
  "content (snd (readPointsFormat2_loop n i pts r)) = content r \<and>
   header (snd (readPointsFormat2_loop n i pts r)) = header r"
proof (induction n arbitrary: i pts r)
  case 0
  show ?case by simp
next
  case (Suc n)
  show ?case
  proof (cases "ReadFull r 26")
    case (Pair res r')
    with ReadFull_keeps [of r 26] have k: "content r' = content r" "header r' = header r" by simp_all
    show ?thesis
    proof (cases res)
      case None
      with Pair k show ?thesis by simp
    next
      case (Some pointData)
      with Pair k Suc.IH [of "i + 1" "pts @ [point_format2 (header r) pointData]" r']
      show ?thesis by simp
    qed
  qed
qed

lemma div_step:
  "0 < d \<Longrightarrow> off + d \<le> len \<Longrightarrow> 1 + (len - (off + d)) div d = (len - off) div (d::nat)"
proof -
  assume d: "0 < d" and le: "off + d \<le> len"
  have "len - off = (len - (off + d)) + d" using le by simp
  then have "(len - off) div d = ((len - (off + d)) + d) div d" by simp
  also have "\<dots> = (len - (off + d)) div d + 1"
    using d div_add_self2 [of d "len - (off + d)"] by simp
  finally show ?thesis by simp
qed

lemma ReadPoints_keeps:
  "content (snd (ReadPoints heap r)) = content r \<and> header (snd (ReadPoints heap r)) = header r"
  using format2_loop_keeps [of "unat (PointCount (header r))" 0 "[]" "Seek r 227"]
    format3_loop_keeps [of "unat (PointCount (header r))" 0 "[]" "Seek r 227"]
  by (simp add: ReadPoints_def Let_def readPointsFormat2_def readPointsFormat3_def
      make_Points_def Seek_def)

lemma Seek_same:
  "content r = content r' \<Longrightarrow> header r = header r' \<Longrightarrow> Seek r pos = Seek r' pos"
  by (cases r, cases r') (simp add: Seek_def)

lemma ReadPoints_from_any_offset:
  "content r = content r' \<Longrightarrow> header r = header r' \<Longrightarrow> ReadPoints heap r = ReadPoints heap r'"
  using Seek_same [of r r' 227] by (simp add: ReadPoints_def Let_def)

lemma format3_loop_enough:
  "offset r + 34 * n \<le> length (content r) \<Longrightarrow>
   readPointsFormat3_loop n i pts r =
     (Inr (pts @ map (\<lambda>k. point_format3 (header r)
               (slice (content r) (offset r + 34 * k) (offset r + 34 * k + 34))) [0..<n]),
      r\<lparr>offset := offset r + 34 * n\<rparr>)"
proof (induction n arbitrary: i pts r)
  case 0
  show ?case by simp
next
  case (Suc n)
  define r' where "r' = r\<lparr>offset := offset r + 34\<rparr>"
  define pd where "pd = slice (content r) (offset r) (offset r + 34)"
  have rf: "ReadFull r 34 = (Some pd, r')"
    using Suc.prems by (simp add: ReadFull_enough r'_def pd_def)
  have "offset r' + 34 * n \<le> length (content r')" using Suc.prems by (simp add: r'_def)
  from Suc.IH [OF this, of "i + 1" "pts @ [point_format3 (header r) pd]"]
  have ih: "readPointsFormat3_loop n (i + 1) (pts @ [point_format3 (header r) pd]) r' =
     (Inr ((pts @ [point_format3 (header r) pd]) @ map (\<lambda>k. point_format3 (header r)
               (slice (content r) (offset r + 34 + 34 * k) (offset r + 34 + 34 * k + 34))) [0..<n]),
      r\<lparr>offset := offset r + 34 * Suc n\<rparr>)"
    by (simp add: r'_def add.assoc)
  have m: "map (\<lambda>k. point_format3 (header r)
               (slice (content r) (offset r + 34 * k) (offset r + 34 * k + 34))) [0..<Suc n] =
        point_format3 (header r) pd # map (\<lambda>k. point_format3 (header r)
               (slice (content r) (offset r + 34 + 34 * k) (offset r + 34 + 34 * k + 34))) [0..<n]"
    by (simp add: map_upt_Suc pd_def add.assoc del: upt_Suc)
  have "readPointsFormat3_loop (Suc n) i pts r =
      readPointsFormat3_loop n (i + 1) (pts @ [point_format3 (header r) pd]) r'"
    using rf by simp
  then show ?case unfolding ih m by simp
qed

lemma format3_loop_short:
  "length (content r) < offset r + 34 * n \<Longrightarrow> offset r \<le> length (content r) \<Longrightarrow>
   fst (readPointsFormat3_loop n i pts r) =
     Inl (ErrReadPoint (i + (length (content r) - offset r) div 34))"
proof (induction n arbitrary: i pts r)
  case 0
  then show ?case by simp
next
  case (Suc n)
  show ?case
  proof (cases "offset r + 34 \<le> length (content r)")
    case True
    define r' where "r' = r\<lparr>offset := offset r + 34\<rparr>"
    define pd where "pd = slice (content r) (offset r) (offset r + 34)"
    have rf: "ReadFull r 34 = (Some pd, r')"
      using True by (simp add: ReadFull_enough r'_def pd_def)
    have "length (content r') < offset r' + 34 * n" "offset r' \<le> length (content r')"
      using Suc.prems True by (simp_all add: r'_def)
    from Suc.IH [OF this, of "i + 1" "pts @ [point_format3 (header r) pd]"]
    have "fst (readPointsFormat3_loop n (i + 1) (pts @ [point_format3 (header r) pd]) r') =
        Inl (ErrReadPoint (i + 1 + (length (content r) - (offset r + 34)) div 34))"
      by (simp add: r'_def)
    moreover have "1 + (length (content r) - (offset r + 34)) div 34 =
        (length (content r) - offset r) div 34"
      using True by (simp add: div_step)
    ultimately show ?thesis using rf by simp
  next
    case False
    then have "(length (content r) - offset r) div 34 = 0" by simp
    with False show ?thesis by (simp add: ReadFull_def)
  qed
qed

lemma format2_loop_enough:
  "offset r + 26 * n \<le> length (content r) \<Longrightarrow>
   readPointsFormat2_loop n i pts r =
     (Inr (pts @ map (\<lambda>k. point_format2 (header r)
               (slice (content r) (offset r + 26 * k) (offset r + 26 * k + 26))) [0..<n]),
      r\<lparr>offset := offset r + 26 * n\<rparr>)"
proof (induction n arbitrary: i pts r)
  case 0
  show ?case by simp
next
  case (Suc n)
  define r' where "r' = r\<lparr>offset := offset r + 26\<rparr>"
  define pd where "pd = slice (content r) (offset r) (offset r + 26)"
  have rf: "ReadFull r 26 = (Some pd, r')"
    using Suc.prems by (simp add: ReadFull_enough r'_def pd_def)
  have "offset r' + 26 * n \<le> length (content r')" using Suc.prems by (simp add: r'_def)
  from Suc.IH [OF this, of "i + 1" "pts @ [point_format2 (header r) pd]"]
  have ih: "readPointsFormat2_loop n (i + 1) (pts @ [point_format2 (header r) pd]) r' =
     (Inr ((pts @ [point_format2 (header r) pd]) @ map (\<lambda>k. point_format2 (header r)
               (slice (content r) (offset r + 26 + 26 * k) (offset r + 26 + 26 * k + 26))) [0..<n]),
      r\<lparr>offset := offset r + 26 * Suc n\<rparr>)"
    by (simp add: r'_def add.assoc)
  have m: "map (\<lambda>k. point_format2 (header r)
               (slice (content r) (offset r + 26 * k) (offset r + 26 * k + 26))) [0..<Suc n] =
        point_format2 (header r) pd # map (\<lambda>k. point_format2 (header r)
               (slice (content r) (offset r + 26 + 26 * k) (offset r + 26 + 26 * k + 26))) [0..<n]"
    by (simp add: map_upt_Suc pd_def add.assoc del: upt_Suc)
  have "readPointsFormat2_loop (Suc n) i pts r =
      readPointsFormat2_loop n (i + 1) (pts @ [point_format2 (header r) pd]) r'"
    using rf by simp
  then show ?case unfolding ih m by simp
qed

lemma format2_loop_short:
  "length (content r) < offset r + 26 * n \<Longrightarrow> offset r \<le> length (content r) \<Longrightarrow>
   fst (readPointsFormat2_loop n i pts r) =
     Inl (ErrReadPoint (i + (length (content r) - offset r) div 26))"
proof (induction n arbitrary: i pts r)
  case 0
  then show ?case by simp
next
  case (Suc n)
  show ?case
  proof (cases "offset r + 26 \<le> length (content r)")
    case True
    define r' where "r' = r\<lparr>offset := offset r + 26\<rparr>"
    define pd where "pd = slice (content r) (offset r) (offset r + 26)"
    have rf: "ReadFull r 26 = (Some pd, r')"
      using True by (simp add: ReadFull_enough r'_def pd_def)
    have "length (content r') < offset r' + 26 * n" "offset r' \<le> length (content r')"
      using Suc.prems True by (simp_all add: r'_def)
    from Suc.IH [OF this, of "i + 1" "pts @ [point_format2 (header r) pd]"]
    have "fst (readPointsFormat2_loop n (i + 1) (pts @ [point_format2 (header r) pd]) r') =
        Inl (ErrReadPoint (i + 1 + (length (content r) - (offset r + 26)) div 26))"
      by (simp add: r'_def)
    moreover have "1 + (length (content r) - (offset r + 26)) div 26 =
        (length (content r) - offset r) div 26"
      using True by (simp add: div_step)
    ultimately show ?thesis using rf by simp
  next
    case False
    then have "(length (content r) - offset r) div 26 = 0" by simp
    with False show ?thesis by (simp add: ReadFull_def)
  qed
qed


subsection \<open>Encoding an empty sequence\<close>

text \<open>
  C6. Encoding an empty point sequence fails, and the file system is left as it
  was: no file is created and nothing is written.
\<close>

theorem Write_empty_fails:
  "points w = [] \<Longrightarrow> Write oor w filename dayOfYear nowYear fs = (Some ErrNoPoints, fs)"
  by (simp add: Write_def)

theorem Write_empty_fails_witness:
  "points NewWriter = [] \<and>
   Write oor_amd64 NewWriter ''empty.las'' 274 2025 empty_disk = (Some ErrNoPoints, empty_disk) \<and>
   files empty_disk ''empty.las'' = None"
  using Write_empty_fails [of NewWriter oor_amd64 "''empty.las''" 274 2025 empty_disk]
  by (simp add: NewWriter_def empty_disk_def)

subsection \<open>The record variant the encoder writes\<close>

lemma encoded_length: "length (encoded oor w yd yr) = 227 + 34 * length (points w)"
proof -
  have "length (concat (map (las_point oor w) ps)) = 34 * length ps" for ps
    by (induction ps) simp_all
  then show ?thesis by (simp add: encoded_def)
qed

lemma encoded_header_byte: "k < 227 \<Longrightarrow> encoded oor w yd yr ! k = las_header w yd yr ! k"
  by (simp add: encoded_def nth_append)

lemma encoded_header_slice:
  "j \<le> 227 \<Longrightarrow> slice (encoded oor w yd yr) i j = slice (las_header w yd yr) i j"
  by (simp add: encoded_def slice_append_left)

lemma Write_content:
  "fst (Write oor w name yd yr fs) = None \<Longrightarrow>
   files (snd (Write oor w name yd yr fs)) name = Some (encoded oor w yd yr)"
  by (simp add: Write_ok_iff Write_fits)

text \<open>
  C3 (as amended). The encoder has no parameter for the record variant: every
  artifact it writes declares point format 3 with 34-byte records (the variant
  with a timestamp) and holds 227 + 34 N bytes for N points.
\<close>

theorem Write_always_format3:
  "fst (Write oor w filename dayOfYear nowYear fs) = None \<Longrightarrow>
   (\<exists>c. files (snd (Write oor w filename dayOfYear nowYear fs)) filename = Some c \<and>
        declared_format c = 3 \<and> Uint16 (slice c 105 107) = 34 \<and>
        length c = 227 + 34 * length (points w))"
  by (simp add: Write_content declared_format_def encoded_header_byte header_format
      encoded_header_slice header_reclen encoded_length)

lemma origin_writer: "points (AddPoint NewWriter origin_point) = [origin_point]"
  by (simp add: AddPoint_def NewWriter_def Let_def)

lemma origin_Write_ok:
  "fst (Write oor_amd64 (AddPoint NewWriter origin_point) ''out.las'' 274 2025 empty_disk) = None"
  by (simp add: Write_ok_iff origin_writer empty_disk_def)

theorem Write_always_format3_witness:
  "\<exists>c. files (snd (Write oor_amd64 (AddPoint NewWriter origin_point) ''out.las'' 274 2025 empty_disk))
         ''out.las'' = Some c \<and>
       declared_format c = 3 \<and> Uint16 (slice c 105 107) = 34 \<and> length c = 261"
  using Write_always_format3 [OF origin_Write_ok] by (simp add: origin_writer)

text \<open>
  The claim as stated fails: a point without a timestamp (\<open>GPSTime = 0\<close>) is still
  written as format 3 with 34-byte records, not as format 2 with 26-byte records.
\<close>

theorem Write_without_timestamp_counterexample:
  "GPSTime origin_point = 0 \<and>
   files (snd (Write oor_amd64 (AddPoint NewWriter origin_point) ''out.las'' 274 2025 empty_disk))
     ''out.las'' = Some (encoded oor_amd64 (AddPoint NewWriter origin_point) 274 2025) \<and>
   declared_format (encoded oor_amd64 (AddPoint NewWriter origin_point) 274 2025) \<noteq> 2 \<and>
   Uint16 (slice (encoded oor_amd64 (AddPoint NewWriter origin_point) 274 2025) 105 107) \<noteq> 26 \<and>
   length (encoded oor_amd64 (AddPoint NewWriter origin_point) 274 2025) \<noteq> 227 + 26"
proof -
  have "GPSTime origin_point = 0" by (simp add: origin_point_def)
  then show ?thesis
    using Write_content [OF origin_Write_ok]
    by (simp add: declared_format_def encoded_header_byte header_format
        encoded_header_slice header_reclen encoded_length origin_writer)
qed

subsection \<open>Reading the points twice\<close>

text \<open>
  C10. \<open>ReadPoints\<close> seeks to offset 227 before it reads, so its result does not
  depend on where the handle stands, and a second call on the reader the first
  call left behind returns the same points (or the same error). The runtime is
  taken to have the same memory to give at both calls.
\<close>

theorem ReadPoints_twice:
  "ReadPoints heap (r\<lparr>offset := k\<rparr>) = ReadPoints heap r \<and>
   ReadPoints heap r = ReadPoints heap (Seek r 227) \<and>
   fst (ReadPoints heap (snd (ReadPoints heap r))) = fst (ReadPoints heap r)"
proof -
  have "ReadPoints heap (r\<lparr>offset := k\<rparr>) = ReadPoints heap r"
    by (rule ReadPoints_from_any_offset) simp_all
  moreover have "ReadPoints heap r = ReadPoints heap (Seek r 227)"
    by (rule ReadPoints_from_any_offset) (simp_all add: Seek_def)
  moreover have "ReadPoints heap (snd (ReadPoints heap r)) = ReadPoints heap r"
    by (rule ReadPoints_from_any_offset) (simp_all add: ReadPoints_keeps)
  ultimately show ?thesis by simp
qed


subsection \<open>What the decoder accepts\<close>

lemma slice_slice: "j \<le> n \<Longrightarrow> slice (slice c 0 n) i j = slice c i j"
  by (simp add: slice_def drop_take min_def)

lemma nth_slice0: "k < n \<Longrightarrow> n \<le> length c \<Longrightarrow> slice c 0 n ! k = c ! k"
  by (simp add: slice_def)

lemma readHeader_short:
  "length c < 227 \<Longrightarrow> readHeader \<lparr>content = c, offset = 0, header = h0\<rparr> = Inl ErrReadHeader"
  by (simp add: readHeader_def ReadFull_def)

lemma readHeader_signature:
  "227 \<le> length c \<Longrightarrow> slice c 0 4 \<noteq> bytes_of ''LASF'' \<Longrightarrow>
   readHeader \<lparr>content = c, offset = 0, header = h0\<rparr> = Inl ErrSignature"
  by (simp add: readHeader_def ReadFull_def slice_slice)

lemma readHeader_parsed:
  "227 \<le> length c \<Longrightarrow> slice c 0 4 = bytes_of ''LASF'' \<Longrightarrow>
   readHeader \<lparr>content = c, offset = 0, header = h0\<rparr> =
     Inr \<lparr>content = c, offset = 227, header = parsed c\<rparr>"
  by (simp add: readHeader_def ReadFull_def slice_slice nth_slice0 parsed_def)

lemma NewReader_cases:
  assumes "files fs name = Some c" and "\<not> blocked fs name"
  shows "NewReader name fs =
     (if length c < 227 then Inl ErrReadHeader
      else if slice c 0 4 \<noteq> bytes_of ''LASF'' then Inl ErrSignature
      else Inr \<lparr>content = c, offset = 227, header = parsed c\<rparr>)"
  using assms
  by (simp add: NewReader_def readHeader_short readHeader_signature readHeader_parsed)

lemma format2_fields:
  "X (point_format2 (parsed c) pd) =
     f64_add (f64_mul (f64_of_int32 (Uint32 (slice pd 0 4))) (Uint64 (slice c 131 139)))
       (Uint64 (slice c 155 163))"
  "Y (point_format2 (parsed c) pd) =
     f64_add (f64_mul (f64_of_int32 (Uint32 (slice pd 4 8))) (Uint64 (slice c 139 147)))
       (Uint64 (slice c 163 171))"
  "Z (point_format2 (parsed c) pd) =
     f64_add (f64_mul (f64_of_int32 (Uint32 (slice pd 8 12))) (Uint64 (slice c 147 155)))
       (Uint64 (slice c 171 179))"
  "Intensity (point_format2 (parsed c) pd) = Uint16 (slice pd 12 14)"
  "Classification (point_format2 (parsed c) pd) = pd ! 15"
  "GPSTime (point_format2 (parsed c) pd) = 0"
  "R (point_format2 (parsed c) pd) = Uint16 (slice pd 20 22)"
  "G (point_format2 (parsed c) pd) = Uint16 (slice pd 22 24)"
  "B (point_format2 (parsed c) pd) = Uint16 (slice pd 24 26)"
  by (simp_all add: point_format2_def point_xyz_def parsed_def Let_def)

lemma format3_fields:
  "X (point_format3 (parsed c) pd) =
     f64_add (f64_mul (f64_of_int32 (Uint32 (slice pd 0 4))) (Uint64 (slice c 131 139)))
       (Uint64 (slice c 155 163))"
  "Y (point_format3 (parsed c) pd) =
     f64_add (f64_mul (f64_of_int32 (Uint32 (slice pd 4 8))) (Uint64 (slice c 139 147)))
       (Uint64 (slice c 163 171))"
  "Z (point_format3 (parsed c) pd) =
     f64_add (f64_mul (f64_of_int32 (Uint32 (slice pd 8 12))) (Uint64 (slice c 147 155)))
       (Uint64 (slice c 171 179))"
  "Intensity (point_format3 (parsed c) pd) = Uint16 (slice pd 12 14)"
  "Classification (point_format3 (parsed c) pd) = pd ! 15"
  "GPSTime (point_format3 (parsed c) pd) = Uint64 (slice pd 20 28)"
  "R (point_format3 (parsed c) pd) = Uint16 (slice pd 28 30)"
  "G (point_format3 (parsed c) pd) = Uint16 (slice pd 30 32)"
  "B (point_format3 (parsed c) pd) = Uint16 (slice pd 32 34)"
  by (simp_all add: point_format3_def point_xyz_def parsed_def Let_def)

lemma ReadPoints_format2_enough:
  assumes "PointFormat (header r) = 2"
    and "227 + 26 * unat (PointCount (header r)) \<le> length (content r)"
    and "48 * unat (PointCount (header r)) \<le> heap"
  shows "fst (ReadPoints heap r) =
     Inr (map (\<lambda>k. point_format2 (header r) (record_at (content r) 26 k))
            [0..<unat (PointCount (header r))])"
  using assms format2_loop_enough [of "Seek r 227" "unat (PointCount (header r))" 0 "[]"]
  by (simp add: ReadPoints_def Let_def readPointsFormat2_def make_Points_def Seek_def
      record_at_def)

lemma ReadPoints_format3_enough:
  assumes "PointFormat (header r) = 3"
    and "227 + 34 * unat (PointCount (header r)) \<le> length (content r)"
    and "48 * unat (PointCount (header r)) \<le> heap"
  shows "fst (ReadPoints heap r) =
     Inr (map (\<lambda>k. point_format3 (header r) (record_at (content r) 34 k))
            [0..<unat (PointCount (header r))])"
  using assms format3_loop_enough [of "Seek r 227" "unat (PointCount (header r))" 0 "[]"]
  by (simp add: ReadPoints_def Let_def readPointsFormat3_def make_Points_def Seek_def
      record_at_def)

lemma ReadPoints_format2_short:
  assumes "PointFormat (header r) = 2" and "227 \<le> length (content r)"
    and "length (content r) < 227 + 26 * unat (PointCount (header r))"
    and "48 * unat (PointCount (header r)) \<le> heap"
  shows "fst (ReadPoints heap r) = Inl (ErrReadPoint ((length (content r) - 227) div 26))"
  using assms format2_loop_short [of "Seek r 227" "unat (PointCount (header r))" 0 "[]"]
  by (simp add: ReadPoints_def Let_def readPointsFormat2_def make_Points_def Seek_def)

lemma ReadPoints_format3_short:
  assumes "PointFormat (header r) = 3" and "227 \<le> length (content r)"
    and "length (content r) < 227 + 34 * unat (PointCount (header r))"
    and "48 * unat (PointCount (header r)) \<le> heap"
  shows "fst (ReadPoints heap r) = Inl (ErrReadPoint ((length (content r) - 227) div 34))"
  using assms format3_loop_short [of "Seek r 227" "unat (PointCount (header r))" 0 "[]"]
  by (simp add: ReadPoints_def Let_def readPointsFormat3_def make_Points_def Seek_def)

lemma ReadPoints_no_memory:
  assumes "PointFormat (header r) = 2 \<or> PointFormat (header r) = 3"
    and "heap < 48 * unat (PointCount (header r))"
  shows "fst (ReadPoints heap r) = Inl Fatal_makeslice"
  using assms
  by (auto simp add: ReadPoints_def Let_def readPointsFormat2_def readPointsFormat3_def
      make_Points_def Seek_def)

lemma ReadPoints_unsupported:
  "PointFormat (header r) \<noteq> 2 \<Longrightarrow> PointFormat (header r) \<noteq> 3 \<Longrightarrow>
   fst (ReadPoints heap r) = Inl (ErrUnsupportedFormat (PointFormat (header r)))"
  by (simp add: ReadPoints_def Let_def Seek_def)

lemma decode_cases:
  assumes "files fs name = Some c" and "\<not> blocked fs name"
  shows "decode heap name fs =
     (if length c < 227 then Inl ErrReadHeader
      else if slice c 0 4 \<noteq> bytes_of ''LASF'' then Inl ErrSignature
      else if declared_format c = 2 then
        (if heap < 48 * declared_count c then Inl Fatal_makeslice
         else if length c < 227 + 26 * declared_count c
           then Inl (ErrReadPoint ((length c - 227) div 26))
         else Inr (map (\<lambda>k. point_format2 (parsed c) (record_at c 26 k)) [0..<declared_count c]))
      else if declared_format c = 3 then
        (if heap < 48 * declared_count c then Inl Fatal_makeslice
         else if length c < 227 + 34 * declared_count c
           then Inl (ErrReadPoint ((length c - 227) div 34))
         else Inr (map (\<lambda>k. point_format3 (parsed c) (record_at c 34 k)) [0..<declared_count c]))
      else Inl (ErrUnsupportedFormat (declared_format c)))"
proof (cases "227 \<le> length c \<and> slice c 0 4 = bytes_of ''LASF''")
  case False
  then have "NewReader name fs = Inl (if length c < 227 then ErrReadHeader else ErrSignature)"
    using assms by (auto simp: NewReader_cases)
  with False show ?thesis by (auto simp: decode_def)
next
  case True
  define r where "r = \<lparr>content = c, offset = 227, header = parsed c\<rparr>"
  have nr: "NewReader name fs = Inr r" using assms True by (simp add: NewReader_cases r_def)
  then have d: "decode heap name fs = fst (ReadPoints heap r)" by (simp add: decode_def)
  have f: "PointFormat (header r) = declared_format c"
    "unat (PointCount (header r)) = declared_count c" "content r = c" "header r = parsed c"
    by (simp_all add: r_def parsed_def declared_format_def declared_count_def)
  consider (other) "declared_format c \<noteq> 2" "declared_format c \<noteq> 3"
    | (nomem) "declared_format c = 2 \<or> declared_format c = 3" "heap < 48 * declared_count c"
    | (f2ok) "declared_format c = 2" "227 + 26 * declared_count c \<le> length c"
        "48 * declared_count c \<le> heap"
    | (f2short) "declared_format c = 2" "length c < 227 + 26 * declared_count c"
        "48 * declared_count c \<le> heap"
    | (f3ok) "declared_format c = 3" "227 + 34 * declared_count c \<le> length c"
        "48 * declared_count c \<le> heap"
    | (f3short) "declared_format c = 3" "length c < 227 + 34 * declared_count c"
        "48 * declared_count c \<le> heap"
    by fastforce
  then show ?thesis
  proof cases
    case other
    then show ?thesis using d f True ReadPoints_unsupported [of r heap] by simp
  next
    case nomem
    then show ?thesis using d f True ReadPoints_no_memory [of r heap] by auto
  next
    case f2ok
    then show ?thesis using d f True ReadPoints_format2_enough [of r heap] by simp
  next
    case f2short
    then show ?thesis using d f True ReadPoints_format2_short [of r heap] by simp
  next
    case f3ok
    then show ?thesis using d f True ReadPoints_format3_enough [of r heap] by simp
  next
    case f3short
    then show ?thesis using d f True ReadPoints_format3_short [of r heap] by simp
  qed
qed

text \<open>
  C7. For a file that can be opened, with content \<open>c\<close>, and a runtime that can
  reserve \<open>heap\<close> bytes for the result: the decoder returns points exactly when
  \<open>c\<close> holds the 227 header bytes, starts with \<open>LASF\<close>, declares format 2 or 3,
  holds the declared number of 26-byte or 34-byte records after the header, and
  the result slice for the declared count can be reserved. A wrong signature
  fails at opening whatever the length, another format is the unsupported-format
  error, and a file that ends before the declared records fails: with the read
  error at the first incomplete record, or, when the declared count is too large
  for the slice to be reserved, with the process stopped before any record is
  read. The points returned are as many as the header declares; the \<open>k\<close>-th one
  is read from the \<open>k\<close>-th record of 26 bytes (format 2: colour in bytes 20 to 25,
  timestamp 0) or of 34 bytes (format 3: timestamp in bytes 20 to 27, colour in
  bytes 28 to 33), its coordinates scaled and shifted by the header's factors.
\<close>

theorem decode_outcomes:
  assumes "files fs name = Some c" and "\<not> blocked fs name"
  shows
    "((\<exists>pts. decode heap name fs = Inr pts) \<longleftrightarrow>
        227 \<le> length c \<and> slice c 0 4 = bytes_of ''LASF'' \<and>
        (declared_format c = 2 \<and> 227 + 26 * declared_count c \<le> length c \<or>
         declared_format c = 3 \<and> 227 + 34 * declared_count c \<le> length c) \<and>
        48 * declared_count c \<le> heap) \<and>
     (slice c 0 4 \<noteq> bytes_of ''LASF'' \<longrightarrow>
        NewReader name fs = Inl (if length c < 227 then ErrReadHeader else ErrSignature)) \<and>
     (length c < 227 \<longrightarrow> decode heap name fs = Inl ErrReadHeader) \<and>
     (227 \<le> length c \<and> slice c 0 4 \<noteq> bytes_of ''LASF'' \<longrightarrow>
        decode heap name fs = Inl ErrSignature) \<and>
     (227 \<le> length c \<and> slice c 0 4 = bytes_of ''LASF'' \<and>
      declared_format c \<noteq> 2 \<and> declared_format c \<noteq> 3 \<longrightarrow>
        decode heap name fs = Inl (ErrUnsupportedFormat (declared_format c))) \<and>
     (227 \<le> length c \<and> slice c 0 4 = bytes_of ''LASF'' \<and>
      declared_format c = 2 \<and> length c < 227 + 26 * declared_count c \<longrightarrow>
        decode heap name fs =
          Inl (if 48 * declared_count c \<le> heap then ErrReadPoint ((length c - 227) div 26)
               else Fatal_makeslice)) \<and>
     (227 \<le> length c \<and> slice c 0 4 = bytes_of ''LASF'' \<and>
      declared_format c = 3 \<and> length c < 227 + 34 * declared_count c \<longrightarrow>
        decode heap name fs =
          Inl (if 48 * declared_count c \<le> heap then ErrReadPoint ((length c - 227) div 34)
               else Fatal_makeslice)) \<and>
     (227 \<le> length c \<and> slice c 0 4 = bytes_of ''LASF'' \<and>
      (declared_format c = 2 \<or> declared_format c = 3) \<and> heap < 48 * declared_count c \<longrightarrow>
        decode heap name fs = Inl Fatal_makeslice) \<and>
     (\<forall>pts. decode heap name fs = Inr pts \<longrightarrow>
        length pts = declared_count c \<and>
        (\<forall>k < declared_count c.
           let p = pts ! k;
               pd = record_at c (if declared_format c = 2 then 26 else 34) k
           in X p = f64_add (f64_mul (f64_of_int32 (Uint32 (slice pd 0 4)))
                      (Uint64 (slice c 131 139))) (Uint64 (slice c 155 163)) \<and>
              Y p = f64_add (f64_mul (f64_of_int32 (Uint32 (slice pd 4 8)))
                      (Uint64 (slice c 139 147))) (Uint64 (slice c 163 171)) \<and>
              Z p = f64_add (f64_mul (f64_of_int32 (Uint32 (slice pd 8 12)))
                      (Uint64 (slice c 147 155))) (Uint64 (slice c 171 179)) \<and>
              Intensity p = Uint16 (slice pd 12 14) \<and>
              Classification p = pd ! 15 \<and>
              (declared_format c = 2 \<longrightarrow>
                 GPSTime p = 0 \<and> R p = Uint16 (slice pd 20 22) \<and>
                 G p = Uint16 (slice pd 22 24) \<and> B p = Uint16 (slice pd 24 26)) \<and>
              (declared_format c = 3 \<longrightarrow>
                 GPSTime p = Uint64 (slice pd 20 28) \<and> R p = Uint16 (slice pd 28 30) \<and>
                 G p = Uint16 (slice pd 30 32) \<and> B p = Uint16 (slice pd 32 34))))"
proof -
  note dc = decode_cases [OF assms, of heap]
  have c1: "(\<exists>pts. decode heap name fs = Inr pts) \<longleftrightarrow>
        227 \<le> length c \<and> slice c 0 4 = bytes_of ''LASF'' \<and>
        (declared_format c = 2 \<and> 227 + 26 * declared_count c \<le> length c \<or>
         declared_format c = 3 \<and> 227 + 34 * declared_count c \<le> length c) \<and>
        48 * declared_count c \<le> heap"
    unfolding dc by (auto split: if_splits)
  have c2: "slice c 0 4 \<noteq> bytes_of ''LASF'' \<longrightarrow>
        NewReader name fs = Inl (if length c < 227 then ErrReadHeader else ErrSignature)"
    using assms by (simp add: NewReader_cases)
  have c3: "length c < 227 \<longrightarrow> decode heap name fs = Inl ErrReadHeader"
    unfolding dc by simp
  have c4: "227 \<le> length c \<and> slice c 0 4 \<noteq> bytes_of ''LASF'' \<longrightarrow>
        decode heap name fs = Inl ErrSignature"
    unfolding dc by simp
  have c5: "227 \<le> length c \<and> slice c 0 4 = bytes_of ''LASF'' \<and>
      declared_format c \<noteq> 2 \<and> declared_format c \<noteq> 3 \<longrightarrow>
        decode heap name fs = Inl (ErrUnsupportedFormat (declared_format c))"
    unfolding dc by simp
  have c6: "227 \<le> length c \<and> slice c 0 4 = bytes_of ''LASF'' \<and>
      declared_format c = 2 \<and> length c < 227 + 26 * declared_count c \<longrightarrow>
        decode heap name fs =
          Inl (if 48 * declared_count c \<le> heap then ErrReadPoint ((length c - 227) div 26)
               else Fatal_makeslice)"
    unfolding dc by simp
  have c7: "227 \<le> length c \<and> slice c 0 4 = bytes_of ''LASF'' \<and>
      declared_format c = 3 \<and> length c < 227 + 34 * declared_count c \<longrightarrow>
        decode heap name fs =
          Inl (if 48 * declared_count c \<le> heap then ErrReadPoint ((length c - 227) div 34)
               else Fatal_makeslice)"
    unfolding dc by simp
  have c8: "227 \<le> length c \<and> slice c 0 4 = bytes_of ''LASF'' \<and>
      (declared_format c = 2 \<or> declared_format c = 3) \<and> heap < 48 * declared_count c \<longrightarrow>
        decode heap name fs = Inl Fatal_makeslice"
    unfolding dc by auto
  have c9: "length pts = declared_count c \<and>
        (\<forall>k < declared_count c.
           let p = pts ! k;
               pd = record_at c (if declared_format c = 2 then 26 else 34) k
           in X p = f64_add (f64_mul (f64_of_int32 (Uint32 (slice pd 0 4)))
                      (Uint64 (slice c 131 139))) (Uint64 (slice c 155 163)) \<and>
              Y p = f64_add (f64_mul (f64_of_int32 (Uint32 (slice pd 4 8)))
                      (Uint64 (slice c 139 147))) (Uint64 (slice c 163 171)) \<and>
              Z p = f64_add (f64_mul (f64_of_int32 (Uint32 (slice pd 8 12)))
                      (Uint64 (slice c 147 155))) (Uint64 (slice c 171 179)) \<and>
              Intensity p = Uint16 (slice pd 12 14) \<and>
              Classification p = pd ! 15 \<and>
              (declared_format c = 2 \<longrightarrow>
                 GPSTime p = 0 \<and> R p = Uint16 (slice pd 20 22) \<and>
                 G p = Uint16 (slice pd 22 24) \<and> B p = Uint16 (slice pd 24 26)) \<and>
              (declared_format c = 3 \<longrightarrow>
                 GPSTime p = Uint64 (slice pd 20 28) \<and> R p = Uint16 (slice pd 28 30) \<and>
                 G p = Uint16 (slice pd 30 32) \<and> B p = Uint16 (slice pd 32 34)))"
    if ok: "decode heap name fs = Inr pts" for pts
  proof -
    from ok c1 consider
      (f2) "declared_format c = 2"
        "pts = map (\<lambda>k. point_format2 (parsed c) (record_at c 26 k)) [0..<declared_count c]"
      | (f3) "declared_format c = 3"
        "pts = map (\<lambda>k. point_format3 (parsed c) (record_at c 34 k)) [0..<declared_count c]"
      unfolding dc by (auto split: if_splits)
    then show ?thesis
    proof cases
      case f2
      then show ?thesis by (simp add: Let_def format2_fields)
    next
      case f3
      then show ?thesis by (simp add: Let_def format3_fields)
    qed
  qed
  from c1 c2 c3 c4 c5 c6 c7 c8 c9 show ?thesis by blast
qed

lemma Write_blocked:
  "fst (Write oor w name yd yr fs) = None \<Longrightarrow> blocked (snd (Write oor w name yd yr fs)) = blocked fs"
  by (simp add: Write_ok_iff Write_fits)

lemma encoded_declared:
  "slice (encoded oor w yd yr) 0 4 = bytes_of ''LASF''"
  "declared_format (encoded oor w yd yr) = 3"
  "declared_count (encoded oor w yd yr) = unat (of_nat (length (points w)) :: uint32)"
  by (simp_all add: declared_format_def declared_count_def encoded_header_byte
      encoded_header_slice header_signature header_format header_count)

lemma stamped_writer: "points (AddPoint NewWriter stamped_point) = [stamped_point]"
  by (simp add: AddPoint_def NewWriter_def Let_def)

lemma stamped_Write_ok:
  "fst (Write oor_amd64 (AddPoint NewWriter stamped_point) ''out.las'' 274 2025 empty_disk) = None"
  by (simp add: Write_ok_iff stamped_writer empty_disk_def)

lemma encoded_first_record:
  "points w = p # ps \<Longrightarrow> record_at (encoded oor w yd yr) 34 0 = las_point oor w p"
  by (simp add: record_at_def encoded_def slice_append_right slice_append_left slice_whole
      [of "las_point oor w p", simplified])

lemma slice_update_outside:
  "i < a \<or> b \<le> i \<Longrightarrow> slice (xs[i := v]) a b = slice xs a b"
proof (cases "i < a")
  case True
  then show ?thesis by (simp add: slice_def)
next
  case False
  assume "i < a \<or> b \<le> i"
  with False have "b \<le> i" "a \<le> i" by simp_all
  then show ?thesis by (simp add: slice_def drop_update_swap)
qed

lemma slice_copy_at_outside:
  "j' \<le> length b \<Longrightarrow> j' \<le> i \<or> j \<le> i' \<Longrightarrow> slice (copy_at i j src b) i' j' = slice b i' j'"
  by (rule slice_eqI) (auto simp: nth_copy_at nth_slice)

lemma slice_copy_at_same:
  "j \<le> length b \<Longrightarrow> length src = j - i \<Longrightarrow> slice (copy_at i j src b) i j = src"
  by (rule slice_eqI) (auto simp: nth_copy_at)

lemma format2_file_facts:
  "length format2_file = 253"
  "slice format2_file 0 4 = bytes_of ''LASF''"
  "declared_format format2_file = 2"
  "declared_count format2_file = 1"
  "slice (record_at format2_file 26 0) 20 22 = PutUint16 1"
  "slice (record_at format2_file 26 0) 22 24 = PutUint16 2"
  "slice (record_at format2_file 26 0) 24 26 = PutUint16 3"
proof -
  define h where "h = las_header (AddPoint NewWriter origin_point) 274 2025"
  define lp where "lp = las_point oor_amd64 (AddPoint NewWriter origin_point) origin_point"
  have l: "length h = 227" "length lp = 34" by (simp_all add: h_def lp_def)
  have f: "format2_file = h[104 := 2] @ take 20 lp @ PutUint16 1 @ PutUint16 2 @ PutUint16 3"
    by (simp add: format2_file_def h_def lp_def)
  show "length format2_file = 253" by (simp add: f l)
  show "slice format2_file 0 4 = bytes_of ''LASF''"
    using header_signature [of "AddPoint NewWriter origin_point" 274 2025]
    by (simp add: f l slice_append_left slice_update_outside h_def)
  show "declared_format format2_file = 2"
    by (simp add: declared_format_def f l nth_append)
  show "declared_count format2_file = 1"
    using header_count [of "AddPoint NewWriter origin_point" 274 2025]
    by (simp add: declared_count_def f l slice_append_left slice_update_outside h_def
        origin_writer)
  have r: "record_at format2_file 26 0 = take 20 lp @ PutUint16 1 @ PutUint16 2 @ PutUint16 3"
    by (simp add: record_at_def f l slice_append_right slice_def)
  show "slice (record_at format2_file 26 0) 20 22 = PutUint16 1"
    by (simp add: r l slice_def)
  show "slice (record_at format2_file 26 0) 22 24 = PutUint16 2"
    by (simp add: r l slice_def)
  show "slice (record_at format2_file 26 0) 24 26 = PutUint16 3"
    by (simp add: r l slice_def)
qed

lemma huge_count_file_facts:
  "length huge_count_file = 227"
  "slice huge_count_file 0 4 = bytes_of ''LASF''"
  "declared_format huge_count_file = 3"
  "declared_count huge_count_file = 4294967295"
proof -
  show "length huge_count_file = 227" by (simp add: huge_count_file_def)
  show "slice huge_count_file 0 4 = bytes_of ''LASF''"
    by (simp add: huge_count_file_def slice_copy_at_outside header_signature)
  show "declared_format huge_count_file = 3"
    by (simp add: huge_count_file_def declared_format_def nth_copy_at header_format)
  show "declared_count huge_count_file = 4294967295"
    by (simp add: huge_count_file_def declared_count_def slice_copy_at_same)
qed

lemma disk_with_file:
  "files (disk_with c) ''in.las'' = Some c" "\<not> blocked (disk_with c) ''in.las''"
  by (simp_all add: disk_with_def empty_disk_def)

theorem decode_outcomes_witness:
  "(\<exists>pts. decode 48 ''out.las''
       (snd (Write oor_amd64 (AddPoint NewWriter stamped_point) ''out.las'' 274 2025 empty_disk)) = Inr pts \<and>
      length pts = 1 \<and> GPSTime (pts ! 0) = 0x4059000000000000 \<and> Intensity (pts ! 0) = 7 \<and>
      R (pts ! 0) = 0 \<and> G (pts ! 0) = 65535 \<and> B (pts ! 0) = 0 \<and> Classification (pts ! 0) = 1) \<and>
   NewReader ''invalid.las'' invalid_disk = Inl ErrReadHeader \<and>
   (\<exists>pts. decode 48 ''in.las'' (disk_with format2_file) = Inr pts \<and>
      length pts = 1 \<and> GPSTime (pts ! 0) = 0 \<and>
      R (pts ! 0) = 1 \<and> G (pts ! 0) = 2 \<and> B (pts ! 0) = 3) \<and>
   decode 47 ''in.las'' (disk_with format2_file) = Inl Fatal_makeslice \<and>
   decode 4294967296 ''in.las'' (disk_with huge_count_file) = Inl Fatal_makeslice \<and>
   decode 206158430160 ''in.las'' (disk_with huge_count_file) = Inl (ErrReadPoint 0)"
proof -
  define w where "w = AddPoint NewWriter stamped_point"
  define fs where "fs = snd (Write oor_amd64 w ''out.las'' 274 2025 empty_disk)"
  define c where "c = encoded oor_amd64 w 274 2025"
  have ok: "fst (Write oor_amd64 w ''out.las'' 274 2025 empty_disk) = None"
    unfolding w_def by (rule stamped_Write_ok)
  have pw: "points w = [stamped_point]" unfolding w_def by (rule stamped_writer)
  have a: "files fs ''out.las'' = Some c" "\<not> blocked fs ''out.las''"
    using Write_content [OF ok] Write_blocked [OF ok]
    by (simp_all add: fs_def c_def empty_disk_def)
  have c: "227 \<le> length c" "slice c 0 4 = bytes_of ''LASF''" "declared_format c = 3"
    "declared_count c = 1" "227 + 34 * declared_count c \<le> length c"
    by (simp_all add: c_def encoded_length encoded_declared pw)
  have rec: "record_at c 34 0 = las_point oor_amd64 w stamped_point"
    unfolding c_def by (rule encoded_first_record [OF pw])
  note d1 = decode_outcomes [OF a, of 48]
  from d1 c obtain pts where p: "decode 48 ''out.las'' fs = Inr pts" by auto
  with d1 c have "length pts = 1 \<and>
      GPSTime (pts ! 0) = Uint64 (slice (record_at c 34 0) 20 28) \<and>
      Intensity (pts ! 0) = Uint16 (slice (record_at c 34 0) 12 14) \<and>
      R (pts ! 0) = Uint16 (slice (record_at c 34 0) 28 30) \<and>
      G (pts ! 0) = Uint16 (slice (record_at c 34 0) 30 32) \<and>
      B (pts ! 0) = Uint16 (slice (record_at c 34 0) 32 34) \<and>
      Classification (pts ! 0) = record_at c 34 0 ! 15"
    by (simp add: Let_def)
  then have "length pts = 1 \<and> GPSTime (pts ! 0) = 0x4059000000000000 \<and> Intensity (pts ! 0) = 7 \<and>
      R (pts ! 0) = 0 \<and> G (pts ! 0) = 65535 \<and> B (pts ! 0) = 0 \<and> Classification (pts ! 0) = 1"
    by (simp add: rec point_gpstime point_intensity point_r point_g point_b
        point_classification stamped_point_def)
  with p have part1: "\<exists>pts. decode 48 ''out.las'' fs = Inr pts \<and>
      length pts = 1 \<and> GPSTime (pts ! 0) = 0x4059000000000000 \<and> Intensity (pts ! 0) = 7 \<and>
      R (pts ! 0) = 0 \<and> G (pts ! 0) = 65535 \<and> B (pts ! 0) = 0 \<and> Classification (pts ! 0) = 1"
    by blast
  have b: "files invalid_disk ''invalid.las'' = Some (bytes_of ''NOT A LAS FILE'')"
    "\<not> blocked invalid_disk ''invalid.las''"
    by (simp_all add: invalid_disk_def empty_disk_def)
  have "slice (bytes_of ''NOT A LAS FILE'') 0 4 \<noteq> bytes_of ''LASF''"
    by (simp add: slice_def bytes_of_def)
  with decode_outcomes [OF b, of 0]
  have part2: "NewReader ''invalid.las'' invalid_disk = Inl ErrReadHeader"
    by simp
  note d2 = decode_outcomes [OF disk_with_file [of format2_file], of 48]
  from d2 obtain pts2 where p2: "decode 48 ''in.las'' (disk_with format2_file) = Inr pts2"
    by (auto simp: format2_file_facts)
  with d2 have "length pts2 = 1 \<and> GPSTime (pts2 ! 0) = 0 \<and>
      R (pts2 ! 0) = 1 \<and> G (pts2 ! 0) = 2 \<and> B (pts2 ! 0) = 3"
    by (simp add: Let_def format2_file_facts)
  with p2 have part3: "\<exists>pts. decode 48 ''in.las'' (disk_with format2_file) = Inr pts \<and>
      length pts = 1 \<and> GPSTime (pts ! 0) = 0 \<and>
      R (pts ! 0) = 1 \<and> G (pts ! 0) = 2 \<and> B (pts ! 0) = 3"
    by blast
  have part4: "decode 47 ''in.las'' (disk_with format2_file) = Inl Fatal_makeslice"
    using decode_outcomes [OF disk_with_file [of format2_file], of 47]
    by (simp add: format2_file_facts)
  have part5: "decode 4294967296 ''in.las'' (disk_with huge_count_file) = Inl Fatal_makeslice"
    using decode_outcomes [OF disk_with_file [of huge_count_file], of 4294967296]
    by (simp add: huge_count_file_facts)
  have part6: "decode 206158430160 ''in.las'' (disk_with huge_count_file) = Inl (ErrReadPoint 0)"
    using decode_outcomes [OF disk_with_file [of huge_count_file], of 206158430160]
    by (simp add: huge_count_file_facts)
  from part1 part2 part3 part4 part5 part6 show ?thesis unfolding fs_def w_def by blast
qed

subsection \<open>The time parser, step by step\<close>

lemma digits_1: "digits 1 n = [digit_char (n mod 10)]"
  unfolding One_nat_def by simp
lemma digits_2: "digits 2 n = [digit_char (n div 10 mod 10), digit_char (n mod 10)]"
proof -
  have "digits (Suc (Suc 0)) n = [digit_char (n div 10 mod 10), digit_char (n mod 10)]"
    by simp
  moreover have "(2::nat) = Suc (Suc 0)" by simp
  ultimately show ?thesis by metis
qed
lemma digits_3:
  "digits 3 n = [digit_char (n div 100 mod 10), digit_char (n div 10 mod 10), digit_char (n mod 10)]"
proof -
  have "n div 10 div 10 = n div 100"
    by (simp add: div_mult2_eq [symmetric])
  then have "digits (Suc (Suc (Suc 0))) n =
      [digit_char (n div 100 mod 10), digit_char (n div 10 mod 10), digit_char (n mod 10)]"
    by simp
  moreover have "(3::nat) = Suc (Suc (Suc 0))" by simp
  ultimately show ?thesis by metis
qed
lemma digits_4:
  "digits 4 n = [digit_char (n div 1000 mod 10), digit_char (n div 100 mod 10),
     digit_char (n div 10 mod 10), digit_char (n mod 10)]"
proof -
  have "n div 10 div 10 div 10 = n div 1000" "n div 10 div 10 = n div 100"
    by (simp_all add: div_mult2_eq [symmetric])
  then have "digits (Suc (Suc (Suc (Suc 0)))) n =
      [digit_char (n div 1000 mod 10), digit_char (n div 100 mod 10),
       digit_char (n div 10 mod 10), digit_char (n mod 10)]"
    by simp
  moreover have "(4::nat) = Suc (Suc (Suc (Suc 0)))" by simp
  ultimately show ?thesis by metis
qed

lemma length_digits [simp]: "length (digits w n) = w"
  by (induction w arbitrary: n) simp_all

lemma lt10_cases:
  "d < 10 \<Longrightarrow> d = 0 \<or> d = 1 \<or> d = 2 \<or> d = 3 \<or> d = 4 \<or> d = 5 \<or> d = 6 \<or> d = 7 \<or> d = 8 \<or> d = (9::nat)"
  by arith

lemma code_digit_char: "d < 10 \<Longrightarrow> code (digit_char d) = 48 + d"
  using lt10_cases [of d] by (auto simp: digit_char_def code_def)

lemma code_mod10 [simp]: "code (digit_char (n mod 10)) = 48 + n mod 10"
  by (simp add: code_digit_char)

lemma is_digit_digit_char [simp]: "is_digit (digit_char (n mod 10))"
  by (simp add: is_digit_def)

lemma digit_char_of_code: "is_digit c \<Longrightarrow> digit_char (code c - 48) = c"
proof -
  assume c: "is_digit c"
  then have "code c - 48 < 10" by (auto simp: is_digit_def)
  then have "code (digit_char (code c - 48)) = code c"
    using c by (simp add: code_digit_char is_digit_def)
  then show ?thesis by (simp add: code_def)
qed

lemma decimal4:
  "y < 10000 \<Longrightarrow>
   (((y div 1000 mod 10) * 10 + y div 100 mod 10) * 10 + y div 10 mod 10) * 10 + y mod 10 = (y::nat)"
proof -
  assume y: "y < 10000"
  define A B C where "A = y div 1000" and "B = y div 100" and "C = y div 10"
  define b c d where "b = B mod 10" and "c = C mod 10" and "d = y mod 10"
  have a: "A = B div 10" "B = C div 10" "C = y div 10"
    by (simp_all add: A_def B_def C_def div_mult2_eq [symmetric])
  have 1: "A mod 10 = A" using y by (simp add: A_def)
  have 2: "A * 10 + b = B" unfolding a(1) b_def by simp
  have 3: "B * 10 + c = C" unfolding a(2) c_def by simp
  have 4: "C * 10 + d = y" unfolding a(3) d_def by simp
  have "((A mod 10 * 10 + b) * 10 + c) * 10 + d = y"
    unfolding 1 2 3 4 ..
  then show ?thesis unfolding A_def B_def C_def b_def c_def d_def .
qed

lemma getnum_digits2:
  "n < 100 \<Longrightarrow> getnum (digits 2 n @ rest) fixed = Some (int n, rest)"
proof -
  assume "n < 100"
  then have 1: "n div 10 mod 10 = n div 10" by simp
  have "n div 10 * 10 + n mod 10 = n" by simp
  then have "int (n div 10 * 10 + n mod 10) = int n" by (rule arg_cong)
  then have 2: "int (n div 10) * 10 + int (n mod 10) = int n"
    by (simp only: of_nat_add of_nat_mult of_nat_numeral)
  have 3: "code (digit_char (n div 10)) = 48 + n div 10"
    using \<open>n < 100\<close> by (simp add: code_digit_char)
  have 4: "n mod 10 \<le> 9" "n div 10 \<le> 9" using \<open>n < 100\<close> by arith+
  show ?thesis using 2 3 4 by (simp add: getnum_def isDigit_def digits_2 1)
qed

lemma match_byte_letter: "letter c2 \<Longrightarrow> match_byte c1 c2 \<longleftrightarrow> lc c1 = lc c2"
  by (auto simp: match_byte_def lc_def letter_def)

lemma match_letters: "list_all letter s2 \<Longrightarrow> match s1 s2 \<longleftrightarrow> map lc s1 = map lc s2"
proof (induction s2 arbitrary: s1)
  case Nil
  show ?case by (simp add: match_def)
next
  case (Cons c s2)
  then have "match (tl s1) s2 \<longleftrightarrow> map lc (tl s1) = map lc s2" by simp
  with Cons.prems show ?case
    by (cases s1) (auto simp: match_def match_byte_letter)
qed

lemma month_letters: "list_all (list_all letter) shortMonthNames"
  by (simp add: shortMonthNames_def letter_def lc_def code_def)

lemma le12_cases:
  "1 \<le> m \<Longrightarrow> m \<le> 12 \<Longrightarrow>
   m = 1 \<or> m = 2 \<or> m = 3 \<or> m = 4 \<or> m = 5 \<or> m = 6 \<or> m = 7 \<or> m = 8 \<or> m = 9 \<or> m = 10 \<or>
   m = 11 \<or> m = (12::nat)"
  by arith

lemma lookup_month:
  assumes "1 \<le> m" "m \<le> 12" "match mon (shortMonthNames ! (m - 1))"
  shows "lookup shortMonthNames 0 (mon @ rest) = Some (int m - 1, rest)"
proof -
  have l: "list_all letter (shortMonthNames ! (m - 1))"
    using month_letters assms(1,2) by (simp add: list_all_length shortMonthNames_def)
  have len: "length mon = 3"
    using assms le12_cases [of m] by (auto simp: match_def shortMonthNames_def dest: list_all2_lengthD)
  have k: "map lc mon = map lc (shortMonthNames ! (m - 1))"
    using assms(3) l by (simp add: match_letters)
  have t: "take 3 (mon @ rest) = mon" "drop 3 (mon @ rest) = rest" using len by simp_all
  have ms: "\<And>name. list_all letter name \<Longrightarrow>
      match mon name \<longleftrightarrow> map lc (shortMonthNames ! (m - 1)) = map lc name"
    using k by (simp add: match_letters)
  show ?thesis
    using le12_cases [OF assms(1,2)] len t
    by (auto simp: shortMonthNames_def ms letter_def lc_def code_def)
qed

lemma digit_char_0: "digit_char 0 = CHR ''0''"
  by (simp add: digit_char_def)

lemma digits_zero: "digits w 0 = replicate w (CHR ''0'')"
  by (induction w) (simp_all add: digit_char_0 replicate_append_same)

lemma length_decimal_pos: "0 < length (decimal n)"
  by (subst decimal.simps) simp

lemma pad_decimal:
  "n < 10 ^ w \<Longrightarrow> 0 < w \<Longrightarrow>
   replicate (w - length (decimal n)) (CHR ''0'') @ decimal n = digits w n"
proof (induction w arbitrary: n)
  case 0
  then show ?case by simp
next
  case (Suc w)
  show ?case
  proof (cases "n < 10")
    case True
    then have "decimal n = [digit_char n]" by (subst decimal.simps) simp
    with True show ?thesis by (simp add: digits_zero)
  next
    case False
    then have d: "decimal n = decimal (n div 10) @ [digit_char (n mod 10)]"
      by (subst decimal.simps) simp
    have w: "0 < w" using False Suc.prems by (cases w) auto
    have "n div 10 < 10 ^ w" using Suc.prems by (simp add: less_mult_imp_div_less mult.commute)
    from Suc.IH [OF this w]
    have "replicate (w - length (decimal (n div 10))) (CHR ''0'') @ decimal (n div 10) =
        digits w (n div 10)" .
    then show ?thesis by (simp add: d)
  qed
qed

lemma appendInt_digits: "n < 10 ^ w \<Longrightarrow> 0 < w \<Longrightarrow> appendInt (int n) w = digits w n"
  by (simp add: appendInt_def pad_decimal)

lemma Format_date:
  "y < 10000 \<Longrightarrow> m < 100 \<Longrightarrow> d < 100 \<Longrightarrow>
   year t = int y \<Longrightarrow> month t = int m \<Longrightarrow> day t = int d \<Longrightarrow> Format t = date_string y m d"
  by (simp add: Format_def date_string_def appendInt_digits)

lemma parse_year:
  "y < 10000 \<Longrightarrow> parse_std stdLongYear t (digits 4 y @ rest) = Inr (t\<lparr>year := int y\<rparr>, rest)"
proof -
  assume y: "y < 10000"
  define a b c d where "a = y div 1000 mod 10" and "b = y div 100 mod 10"
    and "c = y div 10 mod 10" and "d = y mod 10"
  have bd: "a < 10" "b < 10" "c < 10" "d < 10" by (simp_all add: a_def b_def c_def d_def)
  have ds: "digits 4 y = [digit_char a, digit_char b, digit_char c, digit_char d]"
    by (simp add: digits_4 a_def b_def c_def d_def)
  have e: "((a * 10 + b) * 10 + c) * 10 + d = y"
    unfolding a_def b_def c_def d_def by (rule decimal4 [OF y])
  have li: "leadingInt 0 [digit_char a, digit_char b, digit_char c, digit_char d] =
      Some (((a * 10 + b) * 10 + c) * 10 + d, [])"
    using bd by (simp add: code_digit_char)
  have sgn: "digit_char a \<noteq> CHR ''-''" "digit_char a \<noteq> CHR ''+''"
    using bd(1) lt10_cases [of a] by (auto simp: digit_char_def)
  have "atoi (digits 4 y) = Some (int y)"
    using li sgn e by (simp add: atoi_def ds)
  moreover have "isDigit (digits 4 y @ rest) 0"
    using bd by (simp add: isDigit_def ds code_digit_char)
  ultimately show ?thesis by simp
qed

lemma skip_char: "c \<noteq> CHR '' '' \<Longrightarrow> skip (c # v) [c] = Some v"
  by simp

lemma cutspace_spaces:
  "list_all (\<lambda>c. c = CHR '' '') sp \<Longrightarrow> rest = [] \<or> hd rest \<noteq> CHR '' '' \<Longrightarrow>
   cutspace (sp @ rest) = rest"
proof -
  assume sp: "list_all (\<lambda>c. c = CHR '' '') sp" and r: "rest = [] \<or> hd rest \<noteq> CHR '' ''"
  have "dropWhile (\<lambda>c. c = CHR '' '') rest = rest"
    using r by (cases rest) auto
  moreover have "dropWhile (\<lambda>c. c = CHR '' '') (sp @ rest) = dropWhile (\<lambda>c. c = CHR '' '') rest"
    using sp by (induction sp) auto
  ultimately show ?thesis by (simp add: cutspace_def)
qed

lemma skip_spaces:
  "sp \<noteq> [] \<Longrightarrow> list_all (\<lambda>c. c = CHR '' '') sp \<Longrightarrow> rest = [] \<or> hd rest \<noteq> CHR '' '' \<Longrightarrow>
   skip (sp @ rest) '' '' = Some rest"
proof -
  assume sp: "sp \<noteq> []" "list_all (\<lambda>c. c = CHR '' '') sp"
    and r: "rest = [] \<or> hd rest \<noteq> CHR '' ''"
  have c: "cutspace (sp @ rest) = rest" using sp r by (simp add: cutspace_spaces)
  have e: "cutspace [] = []" by (simp add: cutspace_def)
  have h: "hd (sp @ rest) = CHR '' ''" using sp by (cases sp) auto
  have "skip (sp @ rest) [CHR '' ''] = skip (cutspace (sp @ rest)) (cutspace [])"
    using h by simp
  then show ?thesis by (simp add: c e)
qed

lemma getnum_digit1:
  "h < 10 \<Longrightarrow> \<not> isDigit rest 0 \<Longrightarrow> getnum (digits 1 h @ rest) False = Some (int h, rest)"
  by (auto simp: getnum_def isDigit_def digits_1 code_digit_char nth_append)

lemma digit_char_not_space: "digit_char (k mod 10) \<noteq> CHR '' ''"
  using lt10_cases [of "k mod 10"] by (auto simp: digit_char_def)

lemma hd_digits_not_space:
  "hd (digits 2 n @ rest) \<noteq> CHR '' ''" "hd (digits 1 n @ rest) \<noteq> CHR '' ''"
  by (simp_all add: digits_2 digits_1 digit_char_not_space)

lemma leadingInt_digits:
  "list_all is_digit ds \<Longrightarrow> x < 10 ^ k \<Longrightarrow> k + length ds \<le> 18 \<Longrightarrow>
   \<exists>q. leadingInt x ds = Some (q, [])"
proof (induction ds arbitrary: x k)
  case Nil
  show ?case by simp
next
  case (Cons c ds)
  have c: "48 \<le> code c" "code c \<le> 57" using Cons.prems(1) by (simp_all add: is_digit_def)
  have k: "k \<le> 17" using Cons.prems(3) by simp
  have "(10::nat) ^ k \<le> 10 ^ 17" using k by (intro power_increasing) simp_all
  then have x: "x < 10 ^ 17" using Cons.prems(2) by linarith
  have x': "x * 10 + (code c - 48) < 10 ^ Suc k" using Cons.prems(2) c by simp
  have "\<not> x > 2 ^ 63 div 10" "\<not> x * 10 + (code c - 48) > 2 ^ 63" using x c by simp_all
  moreover have "\<exists>q. leadingInt (x * 10 + (code c - 48)) ds = Some (q, [])"
    using Cons.prems by (intro Cons.IH [OF _ x']) simp_all
  ultimately show ?case using c by simp
qed

lemma atoi_digits:
  assumes "list_all is_digit ds" "ds \<noteq> []" "length ds \<le> 9"
  shows "\<exists>q. atoi ds = Some (int q)"
proof -
  obtain q where q: "leadingInt 0 ds = Some (q, [])"
    using leadingInt_digits [of ds 0 0] assms by auto
  have "hd ds \<noteq> CHR ''-''" "hd ds \<noteq> CHR ''+''"
    using assms(1,2) by (cases ds; auto simp: is_digit_def code_def)+
  then have "atoi ds = Some (int q)" using q assms(2) by (simp add: atoi_def)
  then show ?thesis ..
qed

lemma parseNanoseconds_digits:
  assumes "commaOrPeriod c" "ds \<noteq> []" "list_all is_digit ds"
  shows "\<exists>ns. parseNanoseconds (c # ds) (1 + length ds) = Inr ns"
proof (cases "9 < length ds")
  case True
  have "list_all is_digit (take 9 ds)" using assms(3) by (auto simp: list_all_iff dest: in_set_takeD)
  moreover have "take 9 ds \<noteq> []" using assms(2) by simp
  ultimately obtain q where "atoi (take 9 ds) = Some (int q)"
    using atoi_digits [of "take 9 ds"] by auto
  with True assms(1) show ?thesis by (simp add: parseNanoseconds_def Let_def)
next
  case False
  then obtain q where "atoi ds = Some (int q)"
    using atoi_digits [of ds] assms by auto
  with False assms(1) show ?thesis by (simp add: parseNanoseconds_def Let_def)
qed

lemma parse_frac:
  assumes "fr = [] \<or> (\<exists>c ds. fr = c # ds \<and> commaOrPeriod c \<and> ds \<noteq> [] \<and> list_all is_digit ds)"
  shows "\<exists>ns. parse_std stdFracSecond9 t fr = Inr (t\<lparr>nsec := ns\<rparr>, [])"
proof (cases "fr = []")
  case True
  have "parse_std stdFracSecond9 t [] = Inr (t\<lparr>nsec := nsec t\<rparr>, [])" by simp
  with True show ?thesis by blast
next
  case False
  with assms obtain c ds where fr: "fr = c # ds" "commaOrPeriod c" "ds \<noteq> []" "list_all is_digit ds"
    by auto
  have tw: "takeWhile (\<lambda>c. 48 \<le> code c \<and> code c \<le> 57) ds = ds"
    using fr(4) by (simp add: list_all_iff is_digit_def)
  have cond: "\<not> (length fr < 2 \<or> \<not> commaOrPeriod (fr ! 0) \<or> \<not> isDigit fr 1)"
    using fr by (cases ds) (auto simp: isDigit_def is_digit_def)
  obtain ns where "parseNanoseconds (c # ds) (1 + length ds) = Inr ns"
    using parseNanoseconds_digits [OF fr(2,3,4)] by auto
  then have "parse_std stdFracSecond9 t fr = Inr (t\<lparr>nsec := ns\<rparr>, [])"
    using cond by (simp add: fr(1) tw Let_def)
  then show ?thesis ..
qed

lemma daysIn_le: "daysIn m y \<le> 31"
  by (simp add: daysIn_def)

lemma parse_chunks_step:
  "skip v pfx = Some v1 \<Longrightarrow> parse_std s t v1 = Inr (t', v2) \<Longrightarrow>
   parse_chunks ((pfx, s) # chunks) t v = parse_chunks chunks t' v2"
  by simp

lemma Parse_accepts:
  assumes y: "y < 10000" and m: "1 \<le> m" "m \<le> 12"
    and mon: "match mon (shortMonthNames ! (m - 1))"
    and d: "1 \<le> d" "int d \<le> daysIn (int m) (int y)"
    and sp: "sp \<noteq> []" "list_all (\<lambda>c. c = CHR '' '') sp"
    and hh: "hh = digits 2 H \<or> (hh = digits 1 H \<and> H < 10)"
    and hms: "H < 24" "M < 60" "S < 60"
    and fr: "frac_ok fr"
  shows "parseDate (digits 4 y @ ''/'' @ mon @ ''/'' @ digits 2 d @ sp @ hh @ '':'' @
           digits 2 M @ '':'' @ digits 2 S @ fr) = Inr (date_string y m d)"
proof -
  define t0 where "t0 = \<lparr>year = 0, month = - 1, day = - 1, hour = 0, minute = 0, sec = 0, nsec = 0\<rparr>"
  define v7 where "v7 = fr"
  define v6 where "v6 = '':'' @ digits 2 S @ v7"
  define v5 where "v5 = '':'' @ digits 2 M @ v6"
  define v4 where "v4 = hh @ v5"
  define v3 where "v3 = sp @ v4"
  define v2 where "v2 = ''/'' @ digits 2 d @ v3"
  define v1 where "v1 = ''/'' @ mon @ v2"
  define v0 where "v0 = digits 4 y @ v1"
  have d100: "d < 100" using d(2) daysIn_le [of "int m" "int y"] by linarith
  define t1 where "t1 = t0\<lparr>year := int y\<rparr>"
  define t2 where "t2 = t1\<lparr>month := int m - 1 + 1\<rparr>"
  define t3 where "t3 = t2\<lparr>day := int d\<rparr>"
  define t4 where "t4 = t3\<lparr>hour := int H\<rparr>"
  define t5 where "t5 = t4\<lparr>minute := int M\<rparr>"
  define t6 where "t6 = t5\<lparr>sec := int S\<rparr>"
  obtain ns where ns: "parse_std stdFracSecond9 t6 v7 = Inr (t6\<lparr>nsec := ns\<rparr>, [])"
    using parse_frac [of fr t6] fr by (auto simp: frac_ok_def v7_def)
  define t7 where "t7 = t6\<lparr>nsec := ns\<rparr>"
  have s1: "parse_std stdLongYear t0 v0 = Inr (t1, v1)"
    unfolding v0_def t1_def by (rule parse_year [OF y])
  have k2: "skip v1 ''/'' = Some (mon @ v2)" by (simp add: v1_def)
  have s2: "parse_std stdMonth t1 (mon @ v2) = Inr (t2, v2)"
    using lookup_month [OF m mon, of v2] by (simp add: t2_def)
  have k3: "skip v2 ''/'' = Some (digits 2 d @ v3)" by (simp add: v2_def)
  have s3: "parse_std stdZeroDay t2 (digits 2 d @ v3) = Inr (t3, v3)"
    using getnum_digits2 [OF d100, of v3 True] by (simp add: t3_def)
  have hv4: "v4 = [] \<or> hd v4 \<noteq> CHR '' ''"
    using hh hd_digits_not_space [of H v5] by (auto simp: v4_def)
  have k4: "skip v3 '' '' = Some v4"
    unfolding v3_def using sp hv4 by (rule skip_spaces)
  have nd: "\<not> isDigit v5 0" by (simp add: v5_def isDigit_def code_def)
  have "getnum v4 False = Some (int H, v5)"
    using hh hms(1) getnum_digits2 [of H v5 False] getnum_digit1 [of H v5] nd
    by (auto simp: v4_def)
  then have s4: "parse_std stdHour t3 v4 = Inr (t4, v5)"
    using hms(1) by (simp add: t4_def)
  have k5: "skip v5 '':'' = Some (digits 2 M @ v6)" by (simp add: v5_def)
  have s5: "parse_std stdZeroMinute t4 (digits 2 M @ v6) = Inr (t5, v6)"
    using getnum_digits2 [of M v6 True] hms(2) by (simp add: t5_def)
  have k6: "skip v6 '':'' = Some (digits 2 S @ v7)" by (simp add: v6_def)
  have s6: "parse_std stdZeroSecond t5 (digits 2 S @ v7) = Inr (t6, v7)"
    using getnum_digits2 [of S v7 True] hms(3) by (simp add: t6_def)
  have s7: "parse_std stdFracSecond9 t6 v7 = Inr (t7, [])"
    using ns by (simp add: t7_def)
  have "parse_chunks layout_chunks t0 v0 = Inr t7"
    unfolding layout_chunks_def
    by (simp only: parse_chunks_step [OF skip.simps(1) s1] parse_chunks_step [OF k2 s2]
        parse_chunks_step [OF k3 s3] parse_chunks_step [OF k4 s4] parse_chunks_step [OF k5 s5]
        parse_chunks_step [OF k6 s6] parse_chunks_step [OF skip.simps(1) s7])
       simp
  moreover have f: "year t7 = int y" "month t7 = int m" "day t7 = int d"
    by (simp_all add: t7_def t6_def t5_def t4_def t3_def t2_def t1_def)
  ultimately have "Parse v0 = Inr t7"
    using d by (simp add: Parse_def t0_def)
  moreover have "Format t7 = date_string y m d"
    using f y m d100 by (intro Format_date) simp_all
  ultimately have "parseDate v0 = Inr (date_string y m d)"
    by (simp add: parseDate_def)
  then show ?thesis
    by (simp add: v0_def v1_def v2_def v3_def v4_def v5_def v6_def v7_def)
qed

lemma div_mod_digit:
  "d < 10 \<Longrightarrow> (x * 10 + d) div 10 = (x::nat) \<and> (x * 10 + d) mod 10 = d"
  by simp

lemma decimal4_rev:
  assumes "a < 10" "b < 10" "c < 10" "d < (10::nat)"
  defines "q \<equiv> ((a * 10 + b) * 10 + c) * 10 + d"
  shows "q < 10000" "q div 1000 mod 10 = a" "q div 100 mod 10 = b" "q div 10 mod 10 = c"
    "q mod 10 = d"
proof -
  define x2 where "x2 = a * 10 + b"
  define x3 where "x3 = x2 * 10 + c"
  have q: "q = x3 * 10 + d" by (simp add: q_def x3_def x2_def)
  show "q < 10000" using assms by simp
  have 1: "q div 10 = x3" "q mod 10 = d" using div_mod_digit [OF assms(4), of x3] q by simp_all
  have 2: "x3 div 10 = x2" "x3 mod 10 = c" using div_mod_digit [OF assms(3), of x2] x3_def by simp_all
  have 3: "x2 div 10 = a" "x2 mod 10 = b" using div_mod_digit [OF assms(2), of a] x2_def by simp_all
  have e: "q div 1000 = q div 10 div 10 div 10" "q div 100 = q div 10 div 10"
    by (simp_all add: div_mult2_eq [symmetric])
  show "q div 1000 mod 10 = a" unfolding e 1 2 3 using assms(1) by simp
  show "q div 100 mod 10 = b" unfolding e 1 2 3 ..
  show "q div 10 mod 10 = c" unfolding 1 2 ..
  show "q mod 10 = d" by (rule 1)
qed

lemma is_digit_val: "is_digit c \<Longrightarrow> code c - 48 < 10"
  by (auto simp: is_digit_def)

lemma inv_getnum_fixed:
  assumes "getnum v True = Some (n, v')"
  shows "\<exists>k<100. n = int k \<and> v = digits 2 k @ v'"
proof -
  from assms have g: "isDigit v 0" "isDigit v 1"
    and r: "n = (int (code (v ! 0)) - 48) * 10 + (int (code (v ! 1)) - 48)" "v' = drop 2 v"
    by (auto simp: getnum_def split: if_splits)
  define a b where "a = code (v ! 0) - 48" and "b = code (v ! 1) - 48"
  have dg: "is_digit (v ! 0)" "is_digit (v ! 1)" "2 \<le> length v"
    using g by (auto simp: isDigit_def is_digit_def)
  then have ab: "a < 10" "b < 10" by (simp_all add: a_def b_def is_digit_val)
  define k where "k = a * 10 + b"
  have k: "k < 100" "k div 10 mod 10 = a" "k mod 10 = b" using ab by (simp_all add: k_def)
  have "int (code (v ! 0)) - 48 = int a" "int (code (v ! 1)) - 48 = int b"
    using dg by (simp_all add: a_def b_def is_digit_def)
  then have n: "n = int k" by (simp add: r k_def)
  have "digits 2 k = [v ! 0, v ! 1]"
    using dg by (simp add: digits_2 k a_def b_def digit_char_of_code)
  also have "\<dots> = take 2 v" using dg(3) by (cases v; cases "tl v") auto
  finally have "v = digits 2 k @ v'" by (simp add: r)
  with k(1) n show ?thesis by blast
qed

lemma inv_getnum_free:
  assumes "getnum v False = Some (n, v')"
  shows "\<exists>k. n = int k \<and> ((k < 100 \<and> v = digits 2 k @ v') \<or>
           (k < 10 \<and> v = digits 1 k @ v' \<and> \<not> isDigit v' 0))"
proof (cases "isDigit v 1")
  case True
  with assms have "getnum v True = Some (n, v')" by (auto simp: getnum_def split: if_splits)
  then show ?thesis using inv_getnum_fixed by blast
next
  case False
  with assms have g: "isDigit v 0" and r: "n = int (code (v ! 0)) - 48" "v' = drop 1 v"
    by (auto simp: getnum_def split: if_splits)
  define k where "k = code (v ! 0) - 48"
  have dg: "is_digit (v ! 0)" "1 \<le> length v"
    using g by (auto simp: isDigit_def is_digit_def Suc_le_eq)
  then have k: "k < 10" by (simp add: k_def is_digit_val)
  have n: "n = int k" using dg by (simp add: r k_def is_digit_def)
  have "digits 1 k = [v ! 0]" using dg k by (simp add: digits_1 k_def digit_char_of_code)
  also have "\<dots> = take 1 v" using dg(2) by (cases v) auto
  finally have v: "v = digits 1 k @ v'" by (simp add: r)
  have "\<not> isDigit v' 0" using False dg(2) by (cases v) (auto simp: isDigit_def r)
  with k n v show ?thesis by blast
qed

lemma inv_skip_char: "c \<noteq> CHR '' '' \<Longrightarrow> skip v [c] = Some v' \<Longrightarrow> v = c # v'"
  by (cases v) (auto split: if_splits)

lemma dropWhile_split:
  "\<exists>sp. v = sp @ dropWhile P v \<and> list_all P sp \<and> (dropWhile P v = [] \<or> \<not> P (hd (dropWhile P v)))"
proof -
  have "v = takeWhile P v @ dropWhile P v" by simp
  moreover have "list_all P (takeWhile P v)" by (auto simp: list_all_iff dest: set_takeWhileD)
  moreover have "dropWhile P v = [] \<or> \<not> P (hd (dropWhile P v))" by (metis hd_dropWhile)
  ultimately show ?thesis by blast
qed

lemma inv_skip_space:
  assumes "skip v '' '' = Some v'" "v' \<noteq> []"
  shows "\<exists>sp. v = sp @ v' \<and> sp \<noteq> [] \<and> list_all (\<lambda>c. c = CHR '' '') sp"
proof -
  have e: "cutspace [] = []" by (simp add: cutspace_def)
  from assms(1) have h: "v = [] \<or> hd v = CHR '' ''" and v': "v' = cutspace v"
    by (auto simp: e split: if_splits)
  obtain sp where sp: "v = sp @ v'" "list_all (\<lambda>c. c = CHR '' '') sp"
      "v' = [] \<or> hd v' \<noteq> CHR '' ''"
    using dropWhile_split [of v "\<lambda>c. c = CHR '' ''"] by (auto simp: v' cutspace_def)
  have "sp \<noteq> []" using sp(1,3) h assms(2) by (cases sp) auto
  with sp show ?thesis by blast
qed

lemma inv_lookup_gen:
  "lookup tab i v = Some (j, v') \<Longrightarrow>
   \<exists>k<length tab. j = int (i + k) \<and> length (tab ! k) \<le> length v \<and>
     v' = drop (length (tab ! k)) v \<and> match (take (length (tab ! k)) v) (tab ! k)"
proof (induction tab arbitrary: i)
  case Nil
  then show ?case by simp
next
  case (Cons name tab)
  show ?case
  proof (cases "length v \<ge> length name \<and> match (take (length name) v) name")
    case True
    with Cons.prems have "j = int i" "v' = drop (length name) v" by auto
    with True show ?thesis by (intro exI [of _ 0]) simp
  next
    case False
    with Cons.prems have "lookup tab (i + 1) v = Some (j, v')" by auto
    from Cons.IH [OF this] obtain k where "k < length tab" "j = int (i + 1 + k)"
      "length (tab ! k) \<le> length v" "v' = drop (length (tab ! k)) v"
      "match (take (length (tab ! k)) v) (tab ! k)" by blast
    then show ?thesis by (intro exI [of _ "Suc k"]) simp
  qed
qed

lemma inv_lookup_month:
  assumes "lookup shortMonthNames 0 v = Some (j, v')"
  shows "\<exists>m mon. 1 \<le> m \<and> m \<le> 12 \<and> j = int m - 1 \<and> v = mon @ v' \<and>
     match mon (shortMonthNames ! (m - 1))"
proof -
  from inv_lookup_gen [OF assms] obtain k where k: "k < length shortMonthNames" "j = int k"
    "length (shortMonthNames ! k) \<le> length v" "v' = drop (length (shortMonthNames ! k)) v"
    "match (take (length (shortMonthNames ! k)) v) (shortMonthNames ! k)" by auto
  have "k < 12" using k(1) by (simp add: shortMonthNames_def)
  then have "1 \<le> Suc k \<and> Suc k \<le> 12 \<and> j = int (Suc k) - 1 \<and>
     v = take (length (shortMonthNames ! k)) v @ v' \<and>
     match (take (length (shortMonthNames ! k)) v) (shortMonthNames ! (Suc k - 1))"
    using k by simp
  then show ?thesis by blast
qed

lemma leadingInt_rest_suffix:
  "leadingInt x s = Some (q, []) \<Longrightarrow> list_all is_digit s"
proof (induction s arbitrary: x)
  case Nil
  show ?case by simp
next
  case (Cons c s)
  from Cons.prems have c: "\<not> (code c < 48 \<or> code c > 57)" by (auto split: if_splits)
  with Cons.prems have "leadingInt (x * 10 + (code c - 48)) s = Some (q, [])"
    by (auto split: if_splits)
  from Cons.IH [OF this] c show ?case by (auto simp: is_digit_def)
qed

lemma inv_year:
  assumes "parse_std stdLongYear t v = Inr (t', v')"
  shows "\<exists>y<10000. v = digits 4 y @ v' \<and> t' = t\<lparr>year := int y\<rparr>"
proof -
  from assms obtain yy where l: "4 \<le> length v" and g: "isDigit v 0"
    and a: "atoi (take 4 v) = Some yy" and r: "t' = t\<lparr>year := yy\<rparr>" "v' = drop 4 v"
    by (auto split: if_splits option.splits)
  obtain c0 c1 c2 c3 where tk: "take 4 v = [c0, c1, c2, c3]"
    using l by (cases v; cases "tl v"; cases "tl (tl v)"; cases "tl (tl (tl v))") auto
  have c0: "c0 = v ! 0" using tk l by (cases v) auto
  then have d0: "is_digit c0" using g by (simp add: isDigit_def is_digit_def)
  then have ns: "c0 \<noteq> CHR ''-''" "c0 \<noteq> CHR ''+''" by (auto simp: is_digit_def code_def)
  from a ns obtain q where li: "leadingInt 0 [c0, c1, c2, c3] = Some (q, [])" and yy: "yy = int q"
    by (auto simp: atoi_def tk split: option.splits if_splits)
  from leadingInt_rest_suffix [OF li] have dg: "is_digit c0" "is_digit c1" "is_digit c2" "is_digit c3"
    by simp_all
  define a b c d where "a = code c0 - 48" and "b = code c1 - 48" and "c = code c2 - 48"
    and "d = code c3 - 48"
  have bd: "a < 10" "b < 10" "c < 10" "d < 10"
    using dg by (simp_all add: a_def b_def c_def d_def is_digit_val)
  have cs: "c0 = digit_char a" "c1 = digit_char b" "c2 = digit_char c" "c3 = digit_char d"
    using dg by (simp_all add: a_def b_def c_def d_def digit_char_of_code)
  have "leadingInt 0 [c0, c1, c2, c3] = Some (((a * 10 + b) * 10 + c) * 10 + d, [])"
    using bd unfolding cs by (simp add: code_digit_char)
  with li have q: "q = ((a * 10 + b) * 10 + c) * 10 + d" by simp
  note rv = decimal4_rev [OF bd, folded q]
  have "digits 4 q = [c0, c1, c2, c3]" by (simp add: digits_4 rv cs)
  then have "v = digits 4 q @ v'" using tk r(2) by (metis append_take_drop_id)
  with rv(1) r(1) yy show ?thesis by blast
qed

lemma inv_frac:
  assumes "parse_std stdFracSecond9 t v = Inr (t', [])"
  shows "frac_ok v \<and> year t' = year t \<and> month t' = month t \<and> day t' = day t"
proof (cases "length v < 2 \<or> \<not> commaOrPeriod (v ! 0) \<or> \<not> isDigit v 1")
  case True
  with assms show ?thesis by (simp add: frac_ok_def)
next
  case False
  define ds where "ds = drop 1 v"
  define i where "i = length (takeWhile (\<lambda>c. 48 \<le> code c \<and> code c \<le> 57) ds)"
  from assms False obtain ns where t': "t' = t\<lparr>nsec := ns\<rparr>" and dr: "drop (1 + i) v = []"
    by (auto simp: Let_def i_def ds_def split: sum.splits)
  have v: "v = v ! 0 # ds" using False by (cases v) (auto simp: ds_def)
  have "length ds \<le> i" using dr v by (metis drop_eq_Nil length_Cons plus_1_eq_Suc Suc_le_mono)
  then have "takeWhile (\<lambda>c. 48 \<le> code c \<and> code c \<le> 57) ds = ds"
    unfolding i_def by (metis length_takeWhile_le le_antisym takeWhile_eq_take take_all order_refl)
  then have "list_all is_digit ds"
    by (metis (mono_tags, lifting) is_digit_def list_all_iff set_takeWhileD)
  moreover have "ds \<noteq> []" using False by (auto simp: ds_def)
  ultimately have "frac_ok v" using v False unfolding frac_ok_def by blast
  with t' show ?thesis by simp
qed

lemma parse_chunks_inv:
  assumes "parse_chunks ((pfx, st) # chunks) t v = Inr t'"
  shows "\<exists>v1 t1 v2. skip v pfx = Some v1 \<and> parse_std st t v1 = Inr (t1, v2) \<and>
     parse_chunks chunks t1 v2 = Inr t'"
  using assms by (auto split: option.splits sum.splits)

lemma parse_chunks_end: "parse_chunks [] t v = Inr t' \<Longrightarrow> v = [] \<and> t' = t"
  by (auto split: if_splits)

lemma Parse_inv:
  assumes "parseDate s = Inr r"
  shows "\<exists>y m d mon sp hh H M S fr.
     s = digits 4 y @ ''/'' @ mon @ ''/'' @ digits 2 d @ sp @ hh @ '':'' @
           digits 2 M @ '':'' @ digits 2 S @ fr \<and>
     r = date_string y m d \<and>
     y < 10000 \<and> 1 \<le> m \<and> m \<le> 12 \<and> match mon (shortMonthNames ! (m - 1)) \<and>
     1 \<le> d \<and> int d \<le> daysIn (int m) (int y) \<and>
     sp \<noteq> [] \<and> list_all (\<lambda>c. c = CHR '' '') sp \<and>
     (hh = digits 2 H \<or> (hh = digits 1 H \<and> H < 10)) \<and> H < 24 \<and> M < 60 \<and> S < 60 \<and> frac_ok fr"
proof -
  define t0 where "t0 = \<lparr>year = 0, month = - 1, day = - 1, hour = 0, minute = 0, sec = 0, nsec = 0\<rparr>"
  from assms obtain t where p: "parse_chunks layout_chunks t0 s = Inr t"
    and dv: "1 \<le> day t" "day t \<le> daysIn (month t) (year t)" and r: "r = Format t"
    by (auto simp: parseDate_def Parse_def t0_def split: sum.splits if_splits)
  from p obtain a1 t1 v1 where k1: "skip s [] = Some a1" and s1: "parse_std stdLongYear t0 a1 = Inr (t1, v1)"
    and p1: "parse_chunks [(''/'', stdMonth), (''/'', stdZeroDay), ('' '', stdHour),
      ('':'', stdZeroMinute), ('':'', stdZeroSecond), ([], stdFracSecond9)] t1 v1 = Inr t"
    unfolding layout_chunks_def by (blast dest: parse_chunks_inv)
  from p1 obtain a2 t2 v2 where k2: "skip v1 ''/'' = Some a2" and s2: "parse_std stdMonth t1 a2 = Inr (t2, v2)"
    and p2: "parse_chunks [(''/'', stdZeroDay), ('' '', stdHour),
      ('':'', stdZeroMinute), ('':'', stdZeroSecond), ([], stdFracSecond9)] t2 v2 = Inr t"
    by (blast dest: parse_chunks_inv)
  from p2 obtain a3 t3 v3 where k3: "skip v2 ''/'' = Some a3" and s3: "parse_std stdZeroDay t2 a3 = Inr (t3, v3)"
    and p3: "parse_chunks [('' '', stdHour),
      ('':'', stdZeroMinute), ('':'', stdZeroSecond), ([], stdFracSecond9)] t3 v3 = Inr t"
    by (blast dest: parse_chunks_inv)
  from p3 obtain a4 t4 v4 where k4: "skip v3 '' '' = Some a4" and s4: "parse_std stdHour t3 a4 = Inr (t4, v4)"
    and p4: "parse_chunks [('':'', stdZeroMinute), ('':'', stdZeroSecond), ([], stdFracSecond9)] t4 v4 = Inr t"
    by (blast dest: parse_chunks_inv)
  from p4 obtain a5 t5 v5 where k5: "skip v4 '':'' = Some a5" and s5: "parse_std stdZeroMinute t4 a5 = Inr (t5, v5)"
    and p5: "parse_chunks [('':'', stdZeroSecond), ([], stdFracSecond9)] t5 v5 = Inr t"
    by (blast dest: parse_chunks_inv)
  from p5 obtain a6 t6 v6 where k6: "skip v5 '':'' = Some a6" and s6: "parse_std stdZeroSecond t5 a6 = Inr (t6, v6)"
    and p6: "parse_chunks [([], stdFracSecond9)] t6 v6 = Inr t"
    by (blast dest: parse_chunks_inv)
  from p6 obtain a7 t7 v7 where k7: "skip v6 [] = Some a7" and s7: "parse_std stdFracSecond9 t6 a7 = Inr (t7, v7)"
    and p7: "parse_chunks [] t7 v7 = Inr t"
    by (blast dest: parse_chunks_inv)
  from p7 have e7: "v7 = []" "t = t7" using parse_chunks_end by blast+
  have a1: "a1 = s" and a7: "a7 = v6" using k1 k7 by simp_all
  from inv_year [OF s1] obtain y where y: "y < 10000" "s = digits 4 y @ v1" "t1 = t0\<lparr>year := int y\<rparr>"
    by (auto simp: a1)
  have v1: "v1 = ''/'' @ a2" using inv_skip_char [OF _ k2] by simp
  from s2 obtain j where "lookup shortMonthNames 0 a2 = Some (j, v2)" and t2: "t2 = t1\<lparr>month := j + 1\<rparr>"
    by (auto split: option.splits)
  from inv_lookup_month [OF this(1)] obtain m mon where m: "1 \<le> m" "m \<le> 12" "j = int m - 1"
    "a2 = mon @ v2" "match mon (shortMonthNames ! (m - 1))" by blast
  have v2: "v2 = ''/'' @ a3" using inv_skip_char [OF _ k3] by simp
  from s3 obtain n3 where "getnum a3 True = Some (n3, v3)" and t3: "t3 = t2\<lparr>day := n3\<rparr>"
    by (auto split: option.splits)
  from inv_getnum_fixed [OF this(1)] obtain d where d: "d < 100" "n3 = int d" "a3 = digits 2 d @ v3"
    by blast
  from s4 obtain n4 where g4: "getnum a4 False = Some (n4, v4)" and h4: "\<not> (n4 < 0 \<or> 24 \<le> n4)"
    and t4: "t4 = t3\<lparr>hour := n4\<rparr>"
    by (auto split: option.splits if_splits)
  have "a4 \<noteq> []" using g4 by (auto simp: getnum_def isDigit_def split: if_splits)
  from inv_skip_space [OF k4 this] obtain sp where sp: "v3 = sp @ a4" "sp \<noteq> []"
    "list_all (\<lambda>c. c = CHR '' '') sp" by blast
  from inv_getnum_free [OF g4] obtain H where H: "n4 = int H"
    "(H < 100 \<and> a4 = digits 2 H @ v4) \<or> (H < 10 \<and> a4 = digits 1 H @ v4 \<and> \<not> isDigit v4 0)"
    by blast
  define hh where "hh = (if a4 = digits 2 H @ v4 then digits 2 H else digits 1 H)"
  have hh: "a4 = hh @ v4" "hh = digits 2 H \<or> (hh = digits 1 H \<and> H < 10)" "H < 24"
    using H h4 by (auto simp: hh_def)
  have v4: "v4 = '':'' @ a5" using inv_skip_char [OF _ k5] by simp
  from s5 obtain n5 where "getnum a5 True = Some (n5, v5)" and h5: "\<not> (n5 < 0 \<or> 60 \<le> n5)"
    and t5: "t5 = t4\<lparr>minute := n5\<rparr>"
    by (auto split: option.splits if_splits)
  from inv_getnum_fixed [OF this(1)] obtain M where M: "n5 = int M" "a5 = digits 2 M @ v5" by blast
  have v5: "v5 = '':'' @ a6" using inv_skip_char [OF _ k6] by simp
  from s6 obtain n6 where "getnum a6 True = Some (n6, v6)" and h6: "\<not> (n6 < 0 \<or> 60 \<le> n6)"
    and t6: "t6 = t5\<lparr>sec := n6\<rparr>"
    by (auto split: option.splits if_splits)
  from inv_getnum_fixed [OF this(1)] obtain S where S: "n6 = int S" "a6 = digits 2 S @ v6" by blast
  from inv_frac [of t6 v6 t7] s7 have fr: "frac_ok v6" "year t7 = year t6" "month t7 = month t6"
    "day t7 = day t6" by (simp_all add: a7 e7)
  have f: "year t = int y" "month t = int m" "day t = int d"
    using fr by (simp_all add: e7 t6 t5 t4 t3 t2 y(3) m(3) d(2))
  have "s = digits 4 y @ ''/'' @ mon @ ''/'' @ digits 2 d @ sp @ hh @ '':'' @
           digits 2 M @ '':'' @ digits 2 S @ v6"
    by (simp add: y(2) v1 m(4) v2 d(3) sp(1) hh(1) v4 M(2) v5 S(2))
  moreover have "r = date_string y m d"
    unfolding r using f y(1) m(2) d(1) by (intro Format_date) simp_all
  moreover have "1 \<le> d" "int d \<le> daysIn (int m) (int y)" using dv f by simp_all
  moreover have "M < 60" "S < 60" using h5 h6 M(1) S(1) by simp_all
  ultimately show ?thesis using y(1) m(1,2,5) sp(2,3) hh(2,3) fr(1) by blast
qed

subsection \<open>Date extraction\<close>

lemma match_refl_letters: "list_all letter s \<Longrightarrow> match s s"
  by (simp add: match_letters)

lemma month_name_matches: "1 \<le> m \<Longrightarrow> m \<le> 12 \<Longrightarrow> match (shortMonthNames ! (m - 1)) (shortMonthNames ! (m - 1))"
proof -
  assume "1 \<le> m" "m \<le> 12"
  then have "list_all letter (shortMonthNames ! (m - 1))"
    using month_letters by (simp add: list_all_length shortMonthNames_def)
  then show ?thesis by (rule match_refl_letters)
qed

lemma is_digit_digits: "list_all is_digit (digits w n)"
  by (induction w arbitrary: n) simp_all

lemma fixed_is_lenient:
  assumes "valid_fields y m d H M S f"
  shows "lenient_format (fixed_format y m d H M S f) y m d"
proof -
  have "frac_ok (''.'' @ digits 3 f)"
    unfolding frac_ok_def
    by (intro disjI2 exI [of _ "CHR ''.''"] exI [of _ "digits 3 f"])
       (simp add: commaOrPeriod_def is_digit_digits digits_3)
  then show ?thesis
    using assms month_name_matches [of m]
    unfolding lenient_format_def fixed_format_def valid_fields_def
    by (intro exI [of _ "shortMonthNames ! (m - 1)"] exI [of _ "'' ''"] exI [of _ "digits 2 H"]
        exI [of _ H] exI [of _ M] exI [of _ S] exI [of _ "''.'' @ digits 3 f"]) simp
qed

text \<open>
  C4 (as amended). Date extraction succeeds exactly on the strings of the lenient
  format, and returns the date \<open>YYYY-MM-DD\<close> of the year, month and day it read,
  whatever the time of day. Every string of the fixed format
  \<open>YYYY/Mon/DD HH:MM:SS.fff\<close> with a valid calendar date and time is accepted; so
  are strings with no fractional part or one of another length, with a comma for
  the period, a one-digit hour, a month in another capitalisation or several
  spaces before the time. Any other string fails: a wrong \<open>/\<close> or \<open>:\<close> separator,
  a month that is not one of the twelve abbreviations, a day outside the month,
  an hour, minute or second out of range, or trailing text.
\<close>

theorem parseDate_accepts_lenient_format:
  "(parseDate s = Inr r \<longleftrightarrow> (\<exists>y m d. lenient_format s y m d \<and> r = date_string y m d)) \<and>
   (valid_fields y m d H M S f \<longrightarrow>
      parseDate (fixed_format y m d H M S f) = Inr (date_string y m d))"
proof -
  have a: "parseDate s' = Inr (date_string y' m' d')" if "lenient_format s' y' m' d'" for s' y' m' d'
  proof -
    from that obtain mon sp hh H M S fr where
      s': "s' = digits 4 y' @ ''/'' @ mon @ ''/'' @ digits 2 d' @ sp @ hh @ '':'' @
           digits 2 M @ '':'' @ digits 2 S @ fr"
      and c: "y' < 10000" "1 \<le> m'" "m' \<le> 12"
      "match mon (shortMonthNames ! (m' - 1))" "1 \<le> d'" "int d' \<le> daysIn (int m') (int y')"
      "sp \<noteq> []" "list_all (\<lambda>c. c = CHR '' '') sp"
      "hh = digits 2 H \<or> (hh = digits 1 H \<and> H < 10)" "H < 24" "M < 60" "S < 60" "frac_ok fr"
      unfolding lenient_format_def by blast
    show ?thesis unfolding s' using c by (rule Parse_accepts)
  qed
  have b: "\<exists>y m d. lenient_format s y m d \<and> r = date_string y m d" if "parseDate s = Inr r"
  proof -
    from Parse_inv [OF that] obtain y m d mon sp hh H M S fr where
      "s = digits 4 y @ ''/'' @ mon @ ''/'' @ digits 2 d @ sp @ hh @ '':'' @
           digits 2 M @ '':'' @ digits 2 S @ fr"
      "r = date_string y m d" "y < 10000" "1 \<le> m" "m \<le> 12"
      "match mon (shortMonthNames ! (m - 1))" "1 \<le> d" "int d \<le> daysIn (int m) (int y)"
      "sp \<noteq> []" "list_all (\<lambda>c. c = CHR '' '') sp"
      "hh = digits 2 H \<or> (hh = digits 1 H \<and> H < 10)" "H < 24" "M < 60" "S < 60" "frac_ok fr"
      by blast
    then have "lenient_format s y m d" unfolding lenient_format_def by blast
    with \<open>r = date_string y m d\<close> show ?thesis by blast
  qed
  show ?thesis using a b fixed_is_lenient by blast
qed

lemmas parse_eval = parseDate_def Parse_def layout_chunks_def isDigit_def code_def getnum_def
  atoi_def commaOrPeriod_def cutspace_def shortMonthNames_def match_def match_byte_def
  parseNanoseconds_def Format_def appendInt_def decimal.simps digit_char_def daysIn_def
  isLeap_def Let_def

theorem parseDate_accepts_lenient_format_witness:
  "valid_fields 2025 10 1 9 30 2 800 \<and>
   fixed_format 2025 10 1 9 30 2 800 = ''2025/Oct/01 09:30:02.800'' \<and>
   parseDate ''2025/Oct/01 09:30:02.800'' = Inr ''2025-10-01'' \<and>
   lenient_format ''2025/Oct/01 09:30:02.800'' 2025 10 1"
proof -
  have v: "valid_fields 2025 10 1 9 30 2 800"
    by (simp add: valid_fields_def daysIn_def)
  have f: "fixed_format 2025 10 1 9 30 2 800 = ''2025/Oct/01 09:30:02.800''"
    by (simp add: fixed_format_def digits_4 digits_3 digits_2 digit_char_def shortMonthNames_def)
  have d: "date_string 2025 10 1 = ''2025-10-01''"
    by (simp add: date_string_def digits_4 digits_2 digit_char_def)
  from parseDate_accepts_lenient_format [of "''2025/Oct/01 09:30:02.800''" "''2025-10-01''" 2025 10 1 9 30 2 800]
  have "parseDate ''2025/Oct/01 09:30:02.800'' = Inr ''2025-10-01''"
    using v unfolding f d by blast
  moreover have "lenient_format ''2025/Oct/01 09:30:02.800'' 2025 10 1"
    using fixed_is_lenient [OF v] unfolding f .
  ultimately show ?thesis using v f by blast
qed

text \<open>
  The claim as stated fails: the string below has no fractional part and is not
  of the fixed format, and date extraction succeeds on it.
\<close>

theorem parseDate_missing_fraction_counterexample:
  "parseDate ''2025/Oct/01 09:30:02'' = Inr ''2025-10-01'' \<and>
   length ''2025/Oct/01 09:30:02'' \<noteq> length (fixed_format 2025 10 1 9 30 2 0)"
  by (simp add: parse_eval fixed_format_def)

lemma parseDate_other_deviations:
  "parseDate ''2025/oct/01  9:30:02,8'' = Inr ''2025-10-01''"
  "parseDate ''2025/Oct/01 09:30:02.80000'' = Inr ''2025-10-01''"
  "parseDate ''2025-10-01'' = Inl errBad"
  "parseDate ''invalid'' = Inl errBad"
  "parseDate ''2025/Okt/01 09:30:02.800'' = Inl errBad"
  "parseDate ''2025/Oct/01 09.30.02.800'' = Inl errBad"
  "parseDate ''2025/Feb/29 09:30:02.800'' = Inl errDayOutOfRange"
  by (simp_all add: parse_eval)

subsection \<open>Grouping the records into files\<close>

lemma with_rows_Nil [simp]: "with_rows ti di ai [] g = g"
  by (rule ext) (simp add: with_rows_def)

lemma with_rows_bad:
  "row_key ti di ai r = Inl e \<Longrightarrow> with_rows ti di ai (r # rs) g = with_rows ti di ai rs g"
  by (rule ext) (simp add: with_rows_def)

lemma with_rows_good:
  "row_key ti di ai r = Inr key \<Longrightarrow>
   with_rows ti di ai (r # rs) g = with_rows ti di ai rs (g(key \<mapsto> rows_of g key @ [r]))"
  by (rule ext) (auto simp: with_rows_def rows_of_def split: list.splits)

lemma with_rows_append:
  "with_rows ti di ai (rs @ rs') g = with_rows ti di ai rs' (with_rows ti di ai rs g)"
proof (induction rs arbitrary: g)
  case Nil
  show ?case by simp
next
  case (Cons r rs)
  show ?case
  proof (cases "row_key ti di ai r")
    case (Inl e)
    then show ?thesis using Cons [of g] by (simp add: with_rows_bad)
  next
    case (Inr key)
    show ?thesis unfolding append_Cons with_rows_good [OF Inr] by (rule Cons)
  qed
qed

lemma processChunk_loop_groups:
  "processChunk_loop chunk ti di ai g se sk = (sk', err, g') \<Longrightarrow> err = None \<or> se \<Longrightarrow>
   err = None \<and> g' = with_rows ti di ai chunk g"
proof (induction chunk arbitrary: g sk)
  case Nil
  then show ?case by simp
next
  case (Cons r chunk)
  show ?case
  proof (cases "row_key ti di ai r")
    case (Inl e)
    with Cons.prems have se by (auto split: if_splits)
    with Inl Cons.prems
    have "processChunk_loop chunk ti di ai g se (sk + 1) = (sk', err, g')" by simp
    from Cons.IH [OF this Cons.prems(2)] Inl show ?thesis by (simp add: with_rows_bad)
  next
    case (Inr key)
    with Cons.prems
    have "processChunk_loop chunk ti di ai (g(key \<mapsto> rows_of g key @ [r])) se sk = (sk', err, g')"
      by simp
    then have "err = None \<and> g' = with_rows ti di ai chunk (g(key \<mapsto> rows_of g key @ [r]))"
      using Cons.prems(2) by (rule Cons.IH)
    then show ?thesis unfolding with_rows_good [OF Inr] .
  qed
qed

lemma processChunk_groups:
  "processChunk chunk ti di ai g se = (sk', err, g') \<Longrightarrow> err = None \<or> se \<Longrightarrow>
   err = None \<and> g' = with_rows ti di ai chunk g"
  unfolding processChunk_def by (rule processChunk_loop_groups)

lemma read_loop_groups:
  "read_loop input n ti di ai se chunk g sk rc = Inr (g', sk') \<Longrightarrow>
   g' = with_rows ti di ai (chunk @ ok_rows n input) g"
proof (induction input arbitrary: chunk g sk rc)
  case Nil
  show ?case
  proof (cases "chunk = []")
    case True
    with Nil show ?thesis by simp
  next
    case False
    obtain skipped err g'' where pc: "processChunk chunk ti di ai g se = (skipped, err, g'')"
      by (cases "processChunk chunk ti di ai g se") auto
    with Nil False have "err = None \<or> se" by (auto split: option.splits if_splits)
    from processChunk_groups [OF pc this] pc Nil False show ?thesis by simp
  qed
next
  case (Cons res rest)
  define ok where "ok = (case res of ReadError \<Rightarrow> None
                      | Fields r \<Rightarrow> if length r = n then Some r else None)"
  show ?case
  proof (cases ok)
    case None
    then have o: "ok_rows n (res # rest) = ok_rows n rest"
      by (cases res) (auto simp: ok_def split: if_splits)
    from None Cons.prems have "se" unfolding ok_def by (auto split: if_splits)
    with None Cons.prems
    have "read_loop rest n ti di ai se chunk g (sk + 1) rc = Inr (g', sk')"
      unfolding ok_def by simp
    from Cons.IH [OF this] o show ?thesis by simp
  next
    case (Some r)
    then have o: "ok_rows n (res # rest) = r # ok_rows n rest"
      by (cases res) (auto simp: ok_def split: if_splits)
    show ?thesis
    proof (cases "length (chunk @ [r]) \<ge> ChunkSize")
      case False
      with Some Cons.prems
      have "read_loop rest n ti di ai se (chunk @ [r]) g sk (rc + 1) = Inr (g', sk')"
        unfolding ok_def by simp
      from Cons.IH [OF this] o show ?thesis by simp
    next
      case True
      obtain skipped err g'' where
        pc: "processChunk (chunk @ [r]) ti di ai g se = (skipped, err, g'')"
        by (cases "processChunk (chunk @ [r]) ti di ai g se") auto
      with Some True Cons.prems have "err = None \<or> se"
        unfolding ok_def by (auto split: option.splits if_splits)
      from processChunk_groups [OF pc this]
      have e: "err = None" and g: "g'' = with_rows ti di ai (chunk @ [r]) g" by simp_all
      with Some True Cons.prems pc
      have "read_loop rest n ti di ai se [] g'' (sk + skipped) (rc + 1) = Inr (g', sk')"
        unfolding ok_def by simp
      from Cons.IH [OF this] o g show ?thesis by (simp add: with_rows_append [symmetric])
    qed
  qed
qed

lemma readGroups_groups:
  assumes "readGroups input se = Inr (hdr, g, sk)"
  shows "g = with_rows (the (colMap hdr ''Time'')) (the (colMap hdr ''DesignName''))
                (the (colMap hdr ''LastAmp'')) (accepted input) Map.empty"
proof -
  from assms obtain h rest where i: "input = Fields h # rest"
    by (cases input) (auto simp: readGroups_def split: read_result.splits)
  from assms i have h: "h = hdr"
    by (auto simp: readGroups_def split: if_splits sum.splits)
  from assms i h have "read_loop rest (length hdr) (the (colMap hdr ''Time''))
      (the (colMap hdr ''DesignName'')) (the (colMap hdr ''LastAmp'')) se [] Map.empty 0 0 =
      Inr (g, sk)"
    by (auto simp: readGroups_def split: if_splits sum.splits)
  from read_loop_groups [OF this] i h show ?thesis by (simp add: accepted_def)
qed

lemma rows_of_with_rows_empty:
  "rows_of (with_rows ti di ai rs Map.empty) k = filter (\<lambda>r. row_key ti di ai r = Inr k) rs"
  by (simp add: rows_of_def with_rows_def split: list.splits)

lemma dom_with_rows_empty:
  "k \<in> dom (with_rows ti di ai rs Map.empty) \<longleftrightarrow> (\<exists>r \<in> set rs. row_key ti di ai r = Inr k)"
proof -
  have "filter (\<lambda>r. row_key ti di ai r = Inr k) rs \<noteq> [] \<longleftrightarrow>
      (\<exists>r \<in> set rs. row_key ti di ai r = Inr k)"
    by (simp add: filter_empty_conv)
  then show ?thesis
    by (cases "filter (\<lambda>r. row_key ti di ai r = Inr k) rs") (auto simp: with_rows_def dom_def)
qed

lemma write_groups_files:
  "write_groups hdr g refused keys dir = (None, dir') \<Longrightarrow>
   dir' f = (case filter (\<lambda>k. output_name k = f) keys of
               [] \<Rightarrow> dir f
             | ks \<Rightarrow> Some ((case dir f of None \<Rightarrow> [hdr] | Some old \<Rightarrow> old) @
                          concat (map (rows_of g) ks)))"
proof (induction keys arbitrary: dir)
  case Nil
  then show ?case by simp
next
  case (Cons key keys)
  define dir1 where "dir1 = write_group hdr g key dir"
  from Cons.prems have nb: "\<not> refused (output_name key)" by (auto split: if_splits)
  with Cons.prems have "write_groups hdr g refused keys dir1 = (None, dir')"
    by (simp add: dir1_def)
  from Cons.IH [OF this]
  have ih: "dir' f = (case filter (\<lambda>k. output_name k = f) keys of
               [] \<Rightarrow> dir1 f
             | ks \<Rightarrow> Some ((case dir1 f of None \<Rightarrow> [hdr] | Some old \<Rightarrow> old) @
                          concat (map (rows_of g) ks)))" .
  show ?case
  proof (cases "output_name key = f")
    case True
    then have "dir1 f = Some ((case dir f of None \<Rightarrow> [hdr] | Some old \<Rightarrow> old) @ rows_of g key)"
      by (simp add: dir1_def write_group_def split: option.splits)
    with True show ?thesis unfolding ih by (simp split: list.splits)
  next
    case False
    then have e: "dir1 f = dir f"
      by (simp add: dir1_def write_group_def split: option.splits)
    show ?thesis unfolding ih e using False by simp
  qed
qed

lemma concat_single_key:
  "distinct ks \<Longrightarrow>
   concat (map (\<lambda>k'. if k' = k then xs else []) ks) = (if k \<in> set ks then xs else [])"
  by (induction ks) auto

lemma filter_concat_map:
  "filter P (concat (map h ks)) = concat (map (\<lambda>k. filter P (h k)) ks)"
  by (induction ks) simp_all

lemma block_of_key:
  assumes rows: "\<And>k. rows_of g k = filter (\<lambda>r. kf r = Inr k) rs"
    and d: "distinct ks" and s: "set ks = dom g"
  shows "filter (\<lambda>r. kf r = Inr k) (concat (map (rows_of g) (filter (\<lambda>k'. output_name k' = f) ks))) =
     (if f = output_name k then rows_of g k else [])"
proof -
  define ks' where "ks' = filter (\<lambda>k'. output_name k' = f) ks"
  have d': "distinct ks'" using d by (simp add: ks'_def)
  have one: "filter (\<lambda>r. kf r = Inr k) (rows_of g k') = (if k' = k then rows_of g k else [])" for k'
    unfolding rows [of k'] rows [of k] by (auto simp: filter_empty_conv)
  have "filter (\<lambda>r. kf r = Inr k) (concat (map (rows_of g) ks')) =
      concat (map (\<lambda>k'. if k' = k then rows_of g k else []) ks')"
    by (simp add: filter_concat_map one)
  also have "\<dots> = (if k \<in> set ks' then rows_of g k else [])"
    using d' by (rule concat_single_key)
  also have "\<dots> = (if f = output_name k then rows_of g k else [])"
  proof (cases "k \<in> dom g")
    case True
    then show ?thesis using s by (auto simp: ks'_def)
  next
    case False
    then have "rows_of g k = []" by (auto simp: rows_of_def dom_def)
    then show ?thesis by simp
  qed
  finally show ?thesis unfolding ks'_def .
qed

text \<open>
  C9 (as amended). When \<open>SortCSV\<close> succeeds, the group of a key holds the records
  with that key in input order, whatever the chunking; every output file is what
  it was before (or the header line, for a new file) followed by the groups of
  the keys whose sanitized file name it bears, each group as one block; and the
  records of a key are found in the block written to a file exactly when the file
  bears the sanitized name of the key. Different keys are therefore kept apart
  exactly when their sanitized file names differ.
\<close>

theorem SortCSV_one_file_per_name:
  assumes "readGroups input skipErrors = Inr (hdr, groups, skipped)"
    and "SortCSV input skipErrors visit refused dir = (None, dir')"
    and "distinct (visit groups)" and "set (visit groups) = dom groups"
  shows
    "(\<forall>k. rows_of groups k = filter (\<lambda>r. key_of hdr r = Inr k) (accepted input)) \<and>
     (\<forall>k. k \<in> dom groups \<longleftrightarrow> (\<exists>r \<in> set (accepted input). key_of hdr r = Inr k)) \<and>
     (\<forall>f. dir' f =
        (case filter (\<lambda>k. output_name k = f) (visit groups) of
           [] \<Rightarrow> dir f
         | ks \<Rightarrow> Some ((case dir f of None \<Rightarrow> [hdr] | Some old \<Rightarrow> old) @
                      concat (map (rows_of groups) ks)))) \<and>
     (\<forall>k f. filter (\<lambda>r. key_of hdr r = Inr k)
               (concat (map (rows_of groups) (filter (\<lambda>k'. output_name k' = f) (visit groups)))) =
            (if f = output_name k then rows_of groups k else []))"
proof -
  note g = readGroups_groups [OF assms(1)]
  have a: "rows_of groups k = filter (\<lambda>r. key_of hdr r = Inr k) (accepted input)" for k
    unfolding g key_of_def by (rule rows_of_with_rows_empty)
  have b: "k \<in> dom groups \<longleftrightarrow> (\<exists>r \<in> set (accepted input). key_of hdr r = Inr k)" for k
    unfolding g key_of_def by (rule dom_with_rows_empty)
  from assms(1,2) have "write_groups hdr groups refused (visit groups) dir = (None, dir')"
    by (simp add: SortCSV_def)
  note c = write_groups_files [OF this]
  note d = block_of_key [of groups "key_of hdr" "accepted input" "visit groups", OF a assms(3,4)]
  from a b c d show ?thesis by blast
qed

lemma write_groups_unrefused:
  "(\<And>f. \<not> refused f) \<Longrightarrow> fst (write_groups hdr g refused keys dir) = None"
  by (induction keys arbitrary: dir) simp_all

lemma sample_columns:
  "colMap csv_header ''Time'' = Some 0"
  "colMap csv_header ''DesignName'' = Some 1"
  "colMap csv_header ''LastAmp'' = Some 2"
  by (simp_all add: colMap_def csv_header_def upt_rec)

lemma sample_lengths:
  "length csv_header = 3" "length rec1 = 3" "length rec2 = 3" "length rec3 = 3" "length rec4 = 3"
  by (simp_all add: csv_header_def rec1_def rec2_def rec3_def rec4_def)

lemma sample_dates:
  "parseDate ''2025/Oct/01 09:00:00.000'' = Inr ''2025-10-01''"
  "parseDate ''2025/Oct/01 09:01:00.000'' = Inr ''2025-10-01''"
  "parseDate ''2025/Oct/01 09:02:00.000'' = Inr ''2025-10-01''"
  "parseDate ''2025/Oct/01 09:03:00.000'' = Inr ''2025-10-01''"
  by (simp_all add: parse_eval)

lemma sample_keys:
  "row_key 0 (Suc 0) 2 rec1 = Inr key1"
  "row_key 0 (Suc 0) 2 rec2 = Inr key2"
  "row_key 0 (Suc 0) 2 rec3 = Inr key1"
  "row_key 0 (Suc 0) 2 rec4 = Inr key4"
  by (simp_all add: row_key_def rec1_def rec2_def rec3_def rec4_def key1_def key2_def key4_def
      sample_dates normalizeAmp_def ReplaceAll_dot)

lemma sample_key_of:
  "key_of csv_header = row_key 0 (Suc 0) 2"
  by (rule ext) (simp add: key_of_def sample_columns)

lemma sample_names:
  "output_name key1 = ''2025-10-01designDesign_A-123amp097.csv''"
  "output_name key2 = ''2025-10-01designDesignB456amp150.csv''"
  "output_name key4 = ''2025-10-01designDesignB456amp150.csv''"
  by (simp_all add: output_name_def generateFilename_def sanitizeFilename_def
      key1_def key2_def key4_def)

lemma sample_distinct:
  "key1 \<noteq> key2" "key2 \<noteq> key4" "key1 \<noteq> key4"
  "key2 \<noteq> key1" "key4 \<noteq> key2" "key4 \<noteq> key1"
  by (simp_all add: key1_def key2_def key4_def)

lemma sample_read:
  "\<exists>g. readGroups [Fields csv_header, Fields rec1, Fields rec2, Fields rec3] False =
         Inr (csv_header, g, 0)"
  "\<exists>g. readGroups [Fields csv_header, Fields rec2, Fields rec4] False = Inr (csv_header, g, 0)"
  by (simp_all add: readGroups_def sample_columns sample_lengths ChunkSize_def processChunk_def
      sample_keys)

theorem SortCSV_one_file_per_name_witness:
  "fst (SortCSV [Fields csv_header, Fields rec1, Fields rec2, Fields rec3] False
          (\<lambda>g. [key2, key1]) (\<lambda>f. False) Map.empty) = None \<and>
   snd (SortCSV [Fields csv_header, Fields rec1, Fields rec2, Fields rec3] False
          (\<lambda>g. [key2, key1]) (\<lambda>f. False) Map.empty)
     ''2025-10-01designDesign_A-123amp097.csv'' = Some [csv_header, rec1, rec3] \<and>
   snd (SortCSV [Fields csv_header, Fields rec1, Fields rec2, Fields rec3] False
          (\<lambda>g. [key2, key1]) (\<lambda>f. False) Map.empty)
     ''2025-10-01designDesignB456amp150.csv'' = Some [csv_header, rec2] \<and>
   snd (SortCSV [Fields csv_header, Fields rec1, Fields rec2, Fields rec3] False
          (\<lambda>g. [key2, key1]) (\<lambda>f. False) Map.empty)
     ''2025-10-01designDesign_A-123amp.csv'' = None"
proof -
  define input where "input = [Fields csv_header, Fields rec1, Fields rec2, Fields rec3]"
  define visit :: "(GroupKey \<Rightarrow> row list option) \<Rightarrow> GroupKey list"
    where "visit = (\<lambda>g. [key2, key1])"
  define res where "res = SortCSV input False visit (\<lambda>f. False) Map.empty"
  from sample_read(1) obtain g where rg: "readGroups input False = Inr (csv_header, g, 0)"
    unfolding input_def by blast
  have acc: "accepted input = [rec1, rec2, rec3]"
    by (simp add: accepted_def input_def sample_lengths)
  have ok: "fst res = None"
    by (simp add: res_def SortCSV_def rg write_groups_unrefused)
  then have sc: "SortCSV input False visit (\<lambda>f. False) Map.empty = (None, snd res)"
    unfolding res_def by (metis prod.collapse)
  have "k \<in> dom g \<longleftrightarrow> k = key1 \<or> k = key2" for k
    unfolding readGroups_groups [OF rg] dom_with_rows_empty acc
    by (auto simp: sample_columns sample_keys)
  then have dg: "set (visit g) = dom g" by (auto simp: visit_def)
  have dv: "distinct (visit g)" by (simp add: visit_def sample_distinct)
  note t = SortCSV_one_file_per_name [OF rg sc dv dg]
  from t have a: "rows_of g k = filter (\<lambda>r. key_of csv_header r = Inr k) (accepted input)" for k
    by blast
  have r: "rows_of g key1 = [rec1, rec3]" "rows_of g key2 = [rec2]"
    unfolding a by (simp_all add: acc sample_key_of sample_keys sample_distinct)
  from t have c: "snd res f =
        (case filter (\<lambda>k. output_name k = f) (visit g) of
           [] \<Rightarrow> Map.empty f
         | ks \<Rightarrow> Some ((case Map.empty f of None \<Rightarrow> [csv_header] | Some old \<Rightarrow> old) @
                      concat (map (rows_of g) ks)))" for f
    by blast
  have "snd res ''2025-10-01designDesign_A-123amp097.csv'' = Some [csv_header, rec1, rec3]"
    "snd res ''2025-10-01designDesignB456amp150.csv'' = Some [csv_header, rec2]"
    "snd res ''2025-10-01designDesign_A-123amp.csv'' = None"
    unfolding c by (simp_all add: visit_def sample_names r)
  with ok show ?thesis unfolding res_def input_def visit_def by blast
qed

text \<open>
  The claim as stated fails: the two records below differ in the design name,
  so their keys differ, and both are written to the same file, in either order
  of the two keys.
\<close>

theorem SortCSV_shared_file_counterexample:
  "key_of csv_header rec2 = Inr key2 \<and> key_of csv_header rec4 = Inr key4 \<and> key2 \<noteq> key4 \<and>
   SortCSV [Fields csv_header, Fields rec2, Fields rec4] False (\<lambda>g. [key2, key4]) (\<lambda>f. False)
     Map.empty =
     (None, [''2025-10-01designDesignB456amp150.csv'' \<mapsto> [csv_header, rec2, rec4]]) \<and>
   SortCSV [Fields csv_header, Fields rec2, Fields rec4] False (\<lambda>g. [key4, key2]) (\<lambda>f. False)
     Map.empty =
     (None, [''2025-10-01designDesignB456amp150.csv'' \<mapsto> [csv_header, rec4, rec2]])"
proof -
  define input where "input = [Fields csv_header, Fields rec2, Fields rec4]"
  from sample_read(2) obtain g where rg: "readGroups input False = Inr (csv_header, g, 0)"
    unfolding input_def by blast
  have acc: "accepted input = [rec2, rec4]"
    by (simp add: accepted_def input_def sample_lengths)
  have r: "rows_of g key2 = [rec2]" "rows_of g key4 = [rec4]"
    unfolding readGroups_groups [OF rg] rows_of_with_rows_empty acc
    by (simp_all add: sample_columns sample_keys sample_distinct)
  have "SortCSV input False (\<lambda>g. [key2, key4]) (\<lambda>f. False) Map.empty =
     (None, [''2025-10-01designDesignB456amp150.csv'' \<mapsto> [csv_header, rec2, rec4]])"
    by (simp add: SortCSV_def rg write_group_def sample_names r)
  moreover have "SortCSV input False (\<lambda>g. [key4, key2]) (\<lambda>f. False) Map.empty =
     (None, [''2025-10-01designDesignB456amp150.csv'' \<mapsto> [csv_header, rec4, rec2]])"
    by (simp add: SortCSV_def rg write_group_def sample_names r)
  ultimately show ?thesis
    unfolding input_def by (simp add: sample_key_of sample_keys sample_distinct)
qed

lemma processChunk_loop_skip:
  "\<exists>sk' g'. processChunk_loop chunk ti di ai g True sk = (sk', None, g')"
proof (induction chunk arbitrary: g sk)
  case Nil
  show ?case by simp
next
  case (Cons r chunk)
  show ?case
  proof (cases "row_key ti di ai r")
    case (Inl e)
    with Cons [of g "sk + 1"] show ?thesis by simp
  next
    case (Inr key)
    have "\<exists>sk' g'. processChunk_loop chunk ti di ai (g(key \<mapsto> rows_of g key @ [r])) True sk =
        (sk', None, g')"
      by (rule Cons)
    then show ?thesis unfolding processChunk_loop.simps Inr by simp
  qed
qed

lemma read_loop_skip:
  "\<exists>g' sk'. read_loop input n ti di ai True chunk g sk rc = Inr (g', sk')"
proof (induction input arbitrary: chunk g sk rc)
  case Nil
  obtain sk' g' where "processChunk chunk ti di ai g True = (sk', None, g')"
    unfolding processChunk_def using processChunk_loop_skip by blast
  then show ?case by simp
next
  case (Cons res rest)
  define ok where "ok = (case res of ReadError \<Rightarrow> None
                      | Fields r \<Rightarrow> if length r = n then Some r else None)"
  show ?case
  proof (cases ok)
    case None
    with Cons [of chunk g "sk + 1" rc] show ?thesis unfolding ok_def by simp
  next
    case (Some r)
    obtain sk' g' where pc: "processChunk (chunk @ [r]) ti di ai g True = (sk', None, g')"
      unfolding processChunk_def using processChunk_loop_skip by blast
    show ?thesis
    proof (cases "length (chunk @ [r]) \<ge> ChunkSize")
      case True
      with Some pc Cons [of "[]" g' "sk + sk'" "rc + 1"] show ?thesis unfolding ok_def by simp
    next
      case False
      with Some Cons [of "chunk @ [r]" g sk "rc + 1"] show ?thesis unfolding ok_def by simp
    qed
  qed
qed

lemma SortCSV_succeeds:
  assumes "colMap hdr ''Time'' \<noteq> None" and "colMap hdr ''DesignName'' \<noteq> None"
    and "colMap hdr ''LastAmp'' \<noteq> None" and "\<And>f. \<not> refused f"
  shows "fst (SortCSV (Fields hdr # rest) True visit refused dir) = None"
proof -
  obtain g sk where "read_loop rest (length hdr) (the (colMap hdr ''Time''))
      (the (colMap hdr ''DesignName'')) (the (colMap hdr ''LastAmp'')) True [] Map.empty 0 0 =
      Inr (g, sk)"
    using read_loop_skip by blast
  with assms(1-3) have "readGroups (Fields hdr # rest) True = Inr (hdr, g, sk)"
    by (simp add: readGroups_def)
  then show ?thesis using assms(4) by (simp add: SortCSV_def write_groups_unrefused)
qed

subsection \<open>The stored coordinates\<close>

lemma f64_man_range: "0 \<le> f64_man w \<and> f64_man w < 2 ^ 53"
proof -
  define r where "r = f64_mag w mod 2 ^ 52"
  have r: "0 \<le> r" "r < 2 ^ 52" by (simp_all add: r_def)
  have "f64_man w = (if f64_mag w div 2 ^ 52 = 0 then r else 2 ^ 52 + r)"
    unfolding f64_man_def r_def ..
  with r show ?thesis by (simp split: if_splits)
qed

lemma f64_man_nonneg: "0 \<le> f64_man w"
  using f64_man_range by blast

lemma shl_real: "0 \<le> k \<Longrightarrow> real_of_int (shl a k) = real_of_int a * 2 powi k"
  by (simp add: shl_def power_int_def)

lemma trunc_toward_zero_minus: "trunc_toward_zero (- x) = - trunc_toward_zero x"
  by (auto simp: trunc_toward_zero_def ceiling_minus floor_minus)

lemma f64_trunc_val: "f64_trunc w = trunc_toward_zero (f64_val w)"
proof -
  define m where "m = f64_man w"
  define e where "e = f64_exp w"
  have m: "0 \<le> m" by (simp add: m_def f64_man_nonneg)
  have t: "shl m e div shl 1 (- e) = trunc_toward_zero (real_of_int m * 2 powi e)"
  proof (cases "0 \<le> e")
    case True
    then have "shl 1 (- e) = 1" by (simp add: shl_def)
    moreover have "real_of_int m * 2 powi e = real_of_int (shl m e)"
      using True by (simp add: shl_real)
    moreover have "0 \<le> shl m e" using m by (simp add: shl_def)
    ultimately show ?thesis by (simp add: trunc_toward_zero_def)
  next
    case False
    then have a: "shl m e = m" by (simp add: shl_def)
    have b: "shl 1 (- e) = 2 ^ nat (- e)" by (simp add: shl_def)
    have "real_of_int m * 2 powi e = real_of_int m / real_of_int (2 ^ nat (- e))"
      using False by (simp add: power_int_def field_simps)
    moreover have "0 \<le> real_of_int m / real_of_int (2 ^ nat (- e))" using m by simp
    ultimately show ?thesis
      unfolding a b by (simp add: trunc_toward_zero_def floor_divide_of_int_eq del: of_int_power)
  qed
  show ?thesis
  proof (cases "f64_neg w")
    case True
    then have "f64_val w = - (real_of_int m * 2 powi e)"
      by (simp add: f64_val_def f64_sman_def m_def e_def)
    with True t show ?thesis
      by (simp add: f64_trunc_def Let_def trunc_toward_zero_minus m_def e_def)
  next
    case False
    then have "f64_val w = real_of_int m * 2 powi e"
      by (simp add: f64_val_def f64_sman_def m_def e_def)
    with False t show ?thesis
      by (simp add: f64_trunc_def Let_def m_def e_def)
  qed
qed

lemma f64_finite_simps: "f64_finite a \<Longrightarrow> \<not> f64_isNaN a \<and> \<not> f64_isInf a"
  by (simp add: f64_finite_def f64_isNaN_def f64_isInf_def)

lemma f64_val_aligned:
  "e \<le> f64_exp a \<Longrightarrow> f64_val a = real_of_int (shl (f64_sman a) (f64_exp a - e)) * 2 powi e"
proof -
  assume "e \<le> f64_exp a"
  then have "real_of_int (shl (f64_sman a) (f64_exp a - e)) =
      real_of_int (f64_sman a) * 2 powi (f64_exp a - e)"
    by (simp add: shl_real)
  moreover have "(2::real) powi (f64_exp a - e) * 2 powi e = 2 powi f64_exp a"
    by (simp add: power_int_add [symmetric])
  ultimately show ?thesis by (simp add: f64_val_def mult.assoc)
qed

lemma f64_lt_val:
  assumes "f64_finite a" and "f64_finite b"
  shows "f64_lt a b \<longleftrightarrow> f64_val a < f64_val b"
proof -
  define e where "e = min (f64_exp a) (f64_exp b)"
  have "f64_lt a b \<longleftrightarrow> shl (f64_sman a) (f64_exp a - e) < shl (f64_sman b) (f64_exp b - e)"
    using assms by (simp add: f64_lt_def f64_finite_simps Let_def e_def)
  also have "\<dots> \<longleftrightarrow> real_of_int (shl (f64_sman a) (f64_exp a - e)) * 2 powi e <
      real_of_int (shl (f64_sman b) (f64_exp b - e)) * 2 powi e"
    by simp
  also have "\<dots> \<longleftrightarrow> f64_val a < f64_val b"
    using f64_val_aligned [of e a] f64_val_aligned [of e b] by (simp add: e_def)
  finally show ?thesis .
qed

lemma f64_man_bound: "f64_man w < 2 ^ 53"
  using f64_man_range by blast

lemma f64_exp_bound: "f64_finite w \<Longrightarrow> f64_exp w \<le> 971"
proof -
  assume "f64_finite w"
  then have "f64_mag w < 2047 * 2 ^ 52" by (simp add: f64_finite_def f64_inf_mag_def)
  then have "f64_mag w div 2 ^ 52 < 2047" by (simp add: div_less_iff_less_mult)
  then show ?thesis by (simp add: f64_exp_def)
qed

lemma f64_exp_lower: "- 1074 \<le> f64_exp w"
proof -
  have "0 \<le> f64_mag w div 2 ^ 52" by (simp add: f64_mag_def pos_imp_zdiv_nonneg_iff)
  then show ?thesis by (simp add: f64_exp_def)
qed

lemma test_literals:
  "f64_lit 1005 10 = 0x4059200000000000"
  "f64_lit 1006 10 = 0x4059266666666666"
  "f64_lit 2003 10 = 0x406909999999999A"
  "f64_lit 2004 10 = 0x40690CCCCCCCCCCD"
  "f64_lit 52 10 = 0x4014CCCCCCCCCCCD"
  "f64_lit 53 10 = 0x4015333333333333"
  "xScale = 0x3F50624DD2F1A9FC"
  by (code_simp+)

lemma test_steps:
  "f64_lt 0x4059200000000000 MaxFloat64"
  "\<not> f64_lt 0x4059266666666666 0x4059200000000000"
  "f64_sub 0x4059266666666666 0x4059200000000000 = 0x3FB9999999999800"
  "f64_div 0x3FB9999999999800 0x3F50624DD2F1A9FC = 0x4058FFFFFFFFFE70"
  "f64_finite 0x4058FFFFFFFFFE70"
  "f64_trunc 0x4058FFFFFFFFFE70 = 99"
  "f64_man 0x4058FFFFFFFFFE70 = 7036874417766000"
  "f64_exp 0x4058FFFFFFFFFE70 = - 46"
  "f64_neg 0x4058FFFFFFFFFE70 = False"
  by (code_simp+)

lemma test_round: "round (f64_val 0x4058FFFFFFFFFE70) = 100"
proof -
  have "f64_val 0x4058FFFFFFFFFE70 = 7036874417766000 / 2 ^ 46"
    by (simp add: f64_val_def f64_sman_def test_steps power_int_def power_one_over)
  then show ?thesis by (simp add: round_def floor_eq_iff)
qed

lemma AddPoint_fields:
  "points (AddPoint w p) = points w @ [p]"
  "minX (AddPoint w p) = (if f64_lt (X p) (minX w) then X p else minX w)"
  "minY (AddPoint w p) = (if f64_lt (Y p) (minY w) then Y p else minY w)"
  "minZ (AddPoint w p) = (if f64_lt (Z p) (minZ w) then Z p else minZ w)"
  by (simp_all add: AddPoint_def Let_def)

lemma add_all_snoc: "add_all (ps @ [p]) = AddPoint (add_all ps) p"
  by (simp add: add_all_def)

lemma points_add_all [simp]: "points (add_all ps) = ps"
proof (induction ps rule: rev_induct)
  case Nil
  show ?case by (simp add: add_all_def NewWriter_def)
next
  case (snoc p ps)
  then show ?case by (simp add: add_all_snoc AddPoint_fields)
qed

lemma MaxFloat64_fields:
  "f64_finite MaxFloat64" "f64_sman MaxFloat64 = 2 ^ 53 - 1" "f64_exp MaxFloat64 = 971"
  by (code_simp+)

lemma f64_val_abs: "\<bar>f64_val w\<bar> = real_of_int (f64_man w) * 2 powi f64_exp w"
  using f64_man_nonneg [of w]
  by (simp add: f64_val_def f64_sman_def abs_mult)

lemma f64_val_le_max: "f64_finite w \<Longrightarrow> f64_val w \<le> f64_val MaxFloat64"
proof -
  assume f: "f64_finite w"
  have "f64_val w \<le> \<bar>f64_val w\<bar>" by simp
  also have "\<dots> = real_of_int (f64_man w) * 2 powi f64_exp w" by (rule f64_val_abs)
  also have "\<dots> \<le> real_of_int (2 ^ 53 - 1) * 2 powi f64_exp w"
    using f64_man_bound [of w] by (intro mult_right_mono) simp_all
  also have "\<dots> \<le> real_of_int (2 ^ 53 - 1) * 2 powi 971"
    using f64_exp_bound [OF f] by (intro mult_left_mono power_int_increasing) simp_all
  also have "\<dots> = f64_val MaxFloat64" by (simp add: f64_val_def MaxFloat64_fields)
  finally show ?thesis .
qed

text \<open>The smallest value of an axis, by the comparisons of \<open>AddPoint\<close>.\<close>

lemma min_invariant:
  fixes coord :: "Point \<Rightarrow> float64" and low :: "Writer \<Rightarrow> float64"
  assumes step: "\<And>w p. low (AddPoint w p) = (if f64_lt (coord p) (low w) then coord p else low w)"
    and start: "low NewWriter = MaxFloat64"
    and fin: "\<forall>p \<in> set ps. f64_finite (coord p)"
  shows "f64_finite (low (add_all ps)) \<and>
     f64_val (low (add_all ps)) = Min (insert (f64_val MaxFloat64) ((\<lambda>p. f64_val (coord p)) ` set ps))"
  using fin
proof (induction ps rule: rev_induct)
  case Nil
  show ?case by (simp add: add_all_def start MaxFloat64_fields)
next
  case (snoc p ps)
  define m where "m = low (add_all ps)"
  define S where "S = insert (f64_val MaxFloat64) ((\<lambda>p. f64_val (coord p)) ` set ps)"
  from snoc have ih: "f64_finite m" "f64_val m = Min S" and fp: "f64_finite (coord p)"
    by (simp_all add: m_def S_def)
  have S: "finite S" "S \<noteq> {}" by (simp_all add: S_def)
  have lt: "f64_lt (coord p) m \<longleftrightarrow> f64_val (coord p) < f64_val m"
    using fp ih(1) by (rule f64_lt_val)
  have l: "low (add_all (ps @ [p])) = (if f64_lt (coord p) m then coord p else m)"
    by (simp add: add_all_snoc step m_def)
  have "f64_val (low (add_all (ps @ [p]))) = min (f64_val (coord p)) (Min S)"
    unfolding l lt ih(2) [symmetric] by (simp add: min_def)
  also have "\<dots> = Min (insert (f64_val (coord p)) S)"
    using S by simp
  also have "insert (f64_val (coord p)) S =
      insert (f64_val MaxFloat64) ((\<lambda>p. f64_val (coord p)) ` set (ps @ [p]))"
    by (auto simp: S_def)
  finally have "f64_val (low (add_all (ps @ [p]))) =
      Min (insert (f64_val MaxFloat64) ((\<lambda>p. f64_val (coord p)) ` set (ps @ [p])))" .
  moreover have "f64_finite (low (add_all (ps @ [p])))"
    unfolding l using fp ih(1) by simp
  ultimately show ?case by blast
qed

lemma min_observed:
  fixes coord :: "Point \<Rightarrow> float64" and low :: "Writer \<Rightarrow> float64"
  assumes step: "\<And>w p. low (AddPoint w p) = (if f64_lt (coord p) (low w) then coord p else low w)"
    and start: "low NewWriter = MaxFloat64"
    and fin: "\<forall>p \<in> set ps. f64_finite (coord p)" and ne: "ps \<noteq> []"
  shows "f64_val (low (add_all ps)) = Min ((\<lambda>p. f64_val (coord p)) ` set ps)"
proof -
  define S where "S = (\<lambda>p. f64_val (coord p)) ` set ps"
  have S: "finite S" "S \<noteq> {}" using ne by (simp_all add: S_def)
  have "\<forall>x \<in> S. x \<le> f64_val MaxFloat64" using fin by (auto simp: S_def f64_val_le_max)
  then have "Min S \<le> f64_val MaxFloat64" using S by (meson Min_in)
  moreover have "Min (insert (f64_val MaxFloat64) S) = min (f64_val MaxFloat64) (Min S)"
    using S by (rule Min_insert)
  ultimately have "Min (insert (f64_val MaxFloat64) S) = Min S"
    by (simp add: min_def)
  with min_invariant [OF step start fin] show ?thesis by (simp add: S_def)
qed

lemma slice_concat_map:
  "(\<And>x. length (f x) = n) \<Longrightarrow> k < length xs \<Longrightarrow>
   slice (concat (map f xs)) (n * k) (n * k + n) = f (xs ! k)"
proof (induction xs arbitrary: k)
  case Nil
  then show ?case by simp
next
  case (Cons x xs)
  show ?case
  proof (cases k)
    case 0
    then show ?thesis using Cons.prems(1) [of x] by (simp add: slice_def)
  next
    case (Suc j)
    with Cons.prems have j: "j < length xs" by simp
    have "slice (f x @ concat (map f xs)) (n * Suc j) (n * Suc j + n) =
        slice (concat (map f xs)) (n * j) (n * j + n)"
      using Cons.prems(1) [of x] by (simp add: slice_append_right add.commute)
    with Cons.IH [OF Cons.prems(1) j] Suc show ?thesis by simp
  qed
qed

lemma encoded_record:
  "k < length (points w) \<Longrightarrow> record_at (encoded oor w yd yr) 34 k = las_point oor w (points w ! k)"
  using slice_concat_map [of "las_point oor w" 34 k "points w"]
  by (simp add: record_at_def encoded_def slice_append_right add.commute)

lemma sint_int32: "- (2 ^ 31) \<le> t \<Longrightarrow> t < 2 ^ 31 \<Longrightarrow> sint (word_of_int t :: 32 word) = t"
  by (simp add: sint_sbintrunc' signed_take_bit_int_eq_self)

lemma stored_axis:
  "Uint32 (PutUint32 (f64_to_int32 oor q)) =
     (if f64_finite q \<and> - (2 ^ 31) \<le> trunc_toward_zero (f64_val q) \<and>
         trunc_toward_zero (f64_val q) < 2 ^ 31
      then word_of_int (trunc_toward_zero (f64_val q)) else oor q)"
  by (simp add: f64_to_int32_def f64_trunc_val)

text \<open>
  C2 (as amended). In every artifact written for the points \<open>ps\<close>, the three
  coordinate fields of the \<open>k\<close>-th record hold, for each axis, the quotient
  \<open>(value - offset) / scale\<close> computed in \<open>float64\<close> arithmetic and truncated
  toward zero: no rounding to the nearest integer takes place. When the truncated
  quotient does not fit into 32 bits (or is not finite) the field holds what the
  platform's conversion returns. The scale is the \<open>float64\<close> nearest to 0.001 and is
  written to the header, and the offset is the header's offset field; for finite
  coordinates it is the smallest coordinate of the points on that axis.
\<close>

theorem stored_coordinates_truncate:
  assumes "fst (Write oor (add_all ps) filename dayOfYear nowYear fs) = None"
    and "k < length ps"
  shows "\<exists>c. files (snd (Write oor (add_all ps) filename dayOfYear nowYear fs)) filename = Some c \<and>
     (let w = add_all ps; p = ps ! k; pd = record_at c 34 k;
          qx = f64_div (f64_sub (X p) (minX w)) xScale;
          qy = f64_div (f64_sub (Y p) (minY w)) xScale;
          qz = f64_div (f64_sub (Z p) (minZ w)) xScale
      in Uint32 (slice pd 0 4) =
           (if f64_finite qx \<and> - (2 ^ 31) \<le> trunc_toward_zero (f64_val qx) \<and>
               trunc_toward_zero (f64_val qx) < 2 ^ 31
            then word_of_int (trunc_toward_zero (f64_val qx)) else oor qx) \<and>
         Uint32 (slice pd 4 8) =
           (if f64_finite qy \<and> - (2 ^ 31) \<le> trunc_toward_zero (f64_val qy) \<and>
               trunc_toward_zero (f64_val qy) < 2 ^ 31
            then word_of_int (trunc_toward_zero (f64_val qy)) else oor qy) \<and>
         Uint32 (slice pd 8 12) =
           (if f64_finite qz \<and> - (2 ^ 31) \<le> trunc_toward_zero (f64_val qz) \<and>
               trunc_toward_zero (f64_val qz) < 2 ^ 31
            then word_of_int (trunc_toward_zero (f64_val qz)) else oor qz) \<and>
         xScale = 0x3F50624DD2F1A9FC \<and>
         Uint64 (slice c 131 139) = xScale \<and>
         Uint64 (slice c 139 147) = xScale \<and>
         Uint64 (slice c 147 155) = xScale \<and>
         Uint64 (slice c 155 163) = minX w \<and>
         Uint64 (slice c 163 171) = minY w \<and>
         Uint64 (slice c 171 179) = minZ w \<and>
         ((\<forall>p \<in> set ps. f64_finite (X p)) \<longrightarrow>
            f64_val (minX w) = Min ((\<lambda>p. f64_val (X p)) ` set ps)) \<and>
         ((\<forall>p \<in> set ps. f64_finite (Y p)) \<longrightarrow>
            f64_val (minY w) = Min ((\<lambda>p. f64_val (Y p)) ` set ps)) \<and>
         ((\<forall>p \<in> set ps. f64_finite (Z p)) \<longrightarrow>
            f64_val (minZ w) = Min ((\<lambda>p. f64_val (Z p)) ` set ps)))"
proof -
  define c where "c = encoded oor (add_all ps) dayOfYear nowYear"
  let ?w = "add_all ps"
  let ?pd = "record_at c 34 k"
  have ne: "ps \<noteq> []" using assms(2) by auto
  have fl: "files (snd (Write oor ?w filename dayOfYear nowYear fs)) filename = Some c"
    using Write_content [OF assms(1)] by (simp add: c_def)
  have pd: "?pd = las_point oor ?w (ps ! k)"
    using assms(2) encoded_record [of k ?w oor dayOfYear nowYear] by (simp add: c_def)
  have sx: "Uint64 (slice c 131 139) = xScale"
    by (simp add: c_def encoded_header_slice header_xscale)
  have sy: "Uint64 (slice c 139 147) = xScale"
    by (simp add: c_def encoded_header_slice header_yscale)
  have sz: "Uint64 (slice c 147 155) = xScale"
    by (simp add: c_def encoded_header_slice header_zscale)
  have ox: "Uint64 (slice c 155 163) = minX ?w"
    by (simp add: c_def encoded_header_slice header_xoffset)
  have oy: "Uint64 (slice c 163 171) = minY ?w"
    by (simp add: c_def encoded_header_slice header_yoffset)
  have oz: "Uint64 (slice c 171 179) = minZ ?w"
    by (simp add: c_def encoded_header_slice header_zoffset)
  let ?qx = "f64_div (f64_sub (X (ps ! k)) (minX ?w)) xScale"
  let ?qy = "f64_div (f64_sub (Y (ps ! k)) (minY ?w)) xScale"
  let ?qz = "f64_div (f64_sub (Z (ps ! k)) (minZ ?w)) xScale"
  have x: "Uint32 (slice ?pd 0 4) =
      (if f64_finite ?qx \<and> - (2 ^ 31) \<le> trunc_toward_zero (f64_val ?qx) \<and>
          trunc_toward_zero (f64_val ?qx) < 2 ^ 31
       then word_of_int (trunc_toward_zero (f64_val ?qx)) else oor ?qx)"
    unfolding pd point_x by (rule stored_axis)
  have y: "Uint32 (slice ?pd 4 8) =
      (if f64_finite ?qy \<and> - (2 ^ 31) \<le> trunc_toward_zero (f64_val ?qy) \<and>
          trunc_toward_zero (f64_val ?qy) < 2 ^ 31
       then word_of_int (trunc_toward_zero (f64_val ?qy)) else oor ?qy)"
    unfolding pd point_y by (rule stored_axis)
  have z: "Uint32 (slice ?pd 8 12) =
      (if f64_finite ?qz \<and> - (2 ^ 31) \<le> trunc_toward_zero (f64_val ?qz) \<and>
          trunc_toward_zero (f64_val ?qz) < 2 ^ 31
       then word_of_int (trunc_toward_zero (f64_val ?qz)) else oor ?qz)"
    unfolding pd point_z by (rule stored_axis)
  have mx: "(\<forall>p \<in> set ps. f64_finite (X p)) \<longrightarrow>
      f64_val (minX ?w) = Min ((\<lambda>p. f64_val (X p)) ` set ps)"
    using min_observed [of minX X ps] ne by (simp add: AddPoint_fields NewWriter_def)
  have my: "(\<forall>p \<in> set ps. f64_finite (Y p)) \<longrightarrow>
      f64_val (minY ?w) = Min ((\<lambda>p. f64_val (Y p)) ` set ps)"
    using min_observed [of minY Y ps] ne by (simp add: AddPoint_fields NewWriter_def)
  have mz: "(\<forall>p \<in> set ps. f64_finite (Z p)) \<longrightarrow>
      f64_val (minZ ?w) = Min ((\<lambda>p. f64_val (Z p)) ` set ps)"
    using min_observed [of minZ Z ps] ne by (simp add: AddPoint_fields NewWriter_def)
  have bits: "xScale = 0x3F50624DD2F1A9FC" by (rule test_literals)
  show ?thesis
    unfolding Let_def
    by (intro exI [of _ c] conjI fl x y z bits sx sy sz ox oy oz mx my mz)
qed

lemma test_writer:
  "minX (add_all [test_point1, test_point2]) = 0x4059200000000000"
  by (simp add: add_all_def AddPoint_fields NewWriter_def test_point1_def test_point2_def
      test_literals test_steps)

lemma test_Write_ok:
  "fst (Write oor_amd64 (add_all [test_point1, test_point2]) ''test.las'' 274 2025 empty_disk) = None"
  by (simp add: Write_ok_iff empty_disk_def)

lemma test_quotient:
  "f64_div (f64_sub (X test_point2) (minX (add_all [test_point1, test_point2]))) xScale =
     0x4058FFFFFFFFFE70"
  unfolding test_writer by (simp add: test_point2_def test_literals test_steps)

theorem stored_coordinates_truncate_witness:
  "\<exists>c. files (snd (Write oor_amd64 (add_all [test_point1, test_point2]) ''test.las'' 274 2025
            empty_disk)) ''test.las'' = Some c \<and>
       Uint32 (slice (record_at c 34 1) 0 4) = 99 \<and>
       trunc_toward_zero (f64_val (f64_div (f64_sub (X test_point2)
         (minX (add_all [test_point1, test_point2]))) xScale)) = 99 \<and>
       Uint64 (slice c 155 163) = X test_point1"
proof -
  have t: "trunc_toward_zero (f64_val 0x4058FFFFFFFFFE70) = 99"
    unfolding f64_trunc_val [symmetric] by (rule test_steps)
  have k: "1 < length [test_point1, test_point2]" by simp
  from stored_coordinates_truncate [OF test_Write_ok k]
  obtain c where c: "files (snd (Write oor_amd64 (add_all [test_point1, test_point2]) ''test.las''
      274 2025 empty_disk)) ''test.las'' = Some c"
    and x: "Uint32 (slice (record_at c 34 1) 0 4) = 99"
    and m: "Uint64 (slice c 155 163) = minX (add_all [test_point1, test_point2])"
    by (auto simp: Let_def test_quotient t test_steps)
  have "Uint64 (slice c 155 163) = X test_point1"
    unfolding m test_writer by (simp add: test_point1_def test_literals)
  with c x t test_quotient show ?thesis by auto
qed

text \<open>
  The claim as stated fails on the first two points of the repository's own
  round-trip test: for \<open>X = 100.6\<close> and the offset \<open>100.5\<close> the quotient is
  \<open>99.99999999999432\<close>, which rounds to 100, and the field holds 99.
\<close>

theorem stored_coordinate_not_rounded_counterexample:
  "files (snd (Write oor_amd64 (add_all [test_point1, test_point2]) ''test.las'' 274 2025
      empty_disk)) ''test.las'' =
     Some (encoded oor_amd64 (add_all [test_point1, test_point2]) 274 2025) \<and>
   sint (Uint32 (slice (record_at
     (encoded oor_amd64 (add_all [test_point1, test_point2]) 274 2025) 34 1) 0 4)) = 99 \<and>
   round (f64_val (f64_div (f64_sub (X test_point2)
     (minX (add_all [test_point1, test_point2]))) xScale)) = 100"
proof -
  have "record_at (encoded oor_amd64 (add_all [test_point1, test_point2]) 274 2025) 34 1 =
      las_point oor_amd64 (add_all [test_point1, test_point2]) test_point2"
    using encoded_record [of 1 "add_all [test_point1, test_point2]" oor_amd64 274 2025] by simp
  then have "Uint32 (slice (record_at
     (encoded oor_amd64 (add_all [test_point1, test_point2]) 274 2025) 34 1) 0 4) = 99"
    by (simp add: point_x test_quotient f64_to_int32_def test_steps)
  then show ?thesis
    using Write_content [OF test_Write_ok] by (simp add: test_quotient test_round)
qed

end
